theory Spec2Isabelle
  imports Complex_Main "HOL-Library.AList"
begin

section \<open>Shared types (types.ts)\<close>

text \<open>
  \<^verbatim>\<open>Policy\<close>: every field is optional in the source (\<^verbatim>\<open>undefined\<close> is \<open>None\<close>).
  The unit-level \<^verbatim>\<open>maxParallel\<close> hint is called \<open>maxParallelHint\<close> here, because
  the scheduler's own field keeps the name \<open>maxParallel\<close>. Token counts are integers,
  costs are exact reals standing for the source's doubles.
\<close>

record Policy =
  maxParallelHint :: "nat option"
  maxTokens :: "int option"
  maxCost :: "real option"
  toolAllowlist :: "string list option"
  maxMessagesPerSecond :: "nat option"

definition emptyPolicy :: Policy where
  "emptyPolicy = \<lparr>maxParallelHint = None, maxTokens = None, maxCost = None,
     toolAllowlist = None, maxMessagesPerSecond = None\<rparr>"

text \<open>Every \<^verbatim>\<open>throw new Error(...)\<close> of the modelled code is a value of this type.\<close>

datatype error =
    TokenBudgetExceeded string int int
  | CostBudgetExceeded string real real
  | RateLimitExceeded string nat
  | ClaimNotFound string
  | UnknownTool string string
  | UnknownMCP string string
  | NotOnAllowlist string string
  | AlreadyRegistered string
  | External string

section \<open>Budget tracker (policy-enforcer.ts, class PolicyEnforcer)\<close>

record AgentBudget =
  budgetPolicy :: Policy
  tokensUsed :: int
  costUsed :: real

text \<open>
  \<open>budgets\<close> is the \<^verbatim>\<open>Map<string, AgentBudget>\<close>. \<open>boundHandler\<close> is the
  installed \<^verbatim>\<open>llm:response\<close> listener, represented by the resolver it closes over.
\<close>

record PolicyEnforcer =
  budgets :: "string \<rightharpoonup> AgentBudget"
  boundHandler :: "(string \<Rightarrow> string option) option"

definition new_PolicyEnforcer :: PolicyEnforcer where
  "new_PolicyEnforcer = \<lparr>budgets = Map.empty, boundHandler = None\<rparr>"

definition registerAgent :: "string \<Rightarrow> Policy \<Rightarrow> PolicyEnforcer \<Rightarrow> PolicyEnforcer" where
  "registerAgent agentName policy pe =
     pe\<lparr>budgets := (budgets pe)(agentName \<mapsto>
        \<lparr>budgetPolicy = policy, tokensUsed = 0, costUsed = 0\<rparr>)\<rparr>"

text \<open>
  \<^verbatim>\<open>checkBudget\<close> returns normally (\<open>Inr ()\<close>) or throws (\<open>Inl\<close>); the enforcer after
  the call is returned as well, so that its effect on the state can be stated.
\<close>

definition checkBudget :: "string \<Rightarrow> PolicyEnforcer \<Rightarrow> (error + unit) \<times> PolicyEnforcer" where
  "checkBudget agentName pe =
     (case budgets pe agentName of
        None \<Rightarrow> (Inr (), pe)
      | Some budget \<Rightarrow>
          (let policy = budgetPolicy budget;
               tu = tokensUsed budget;
               cu = costUsed budget
           in if maxTokens policy \<noteq> None \<and> tu \<ge> the (maxTokens policy)
              then (Inl (TokenBudgetExceeded agentName tu (the (maxTokens policy))), pe)
              else if maxCost policy \<noteq> None \<and> cu \<ge> the (maxCost policy)
              then (Inl (CostBudgetExceeded agentName cu (the (maxCost policy))), pe)
              else (Inr (), pe)))"

definition addTokenUsage :: "string \<Rightarrow> int \<Rightarrow> PolicyEnforcer \<Rightarrow> PolicyEnforcer" where
  "addTokenUsage agentName tokens pe =
     (case budgets pe agentName of
        None \<Rightarrow> pe
      | Some budget \<Rightarrow>
          pe\<lparr>budgets := (budgets pe)(agentName \<mapsto>
             budget\<lparr>tokensUsed := tokensUsed budget + tokens\<rparr>)\<rparr>)"

definition addCostUsage :: "string \<Rightarrow> real \<Rightarrow> PolicyEnforcer \<Rightarrow> PolicyEnforcer" where
  "addCostUsage agentName cost pe =
     (case budgets pe agentName of
        None \<Rightarrow> pe
      | Some budget \<Rightarrow>
          pe\<lparr>budgets := (budgets pe)(agentName \<mapsto>
             budget\<lparr>costUsed := costUsed budget + cost\<rparr>)\<rparr>)"

definition getUsage :: "string \<Rightarrow> PolicyEnforcer \<Rightarrow> (int \<times> real) option" where
  "getUsage agentName pe =
     (case budgets pe agentName of
        None \<Rightarrow> None
      | Some budget \<Rightarrow> Some (tokensUsed budget, costUsed budget))"

definition startListening :: "(string \<Rightarrow> string option) \<Rightarrow> PolicyEnforcer \<Rightarrow> PolicyEnforcer" where
  "startListening resolveAgent pe = pe\<lparr>boundHandler := Some resolveAgent\<rparr>"

text \<open>
  The listener installed by \<^verbatim>\<open>startListening\<close>, run on one \<^verbatim>\<open>llm:response\<close> event with
  the given correlation id and \<^verbatim>\<open>usage.totalTokens\<close>. The source tests both for
  truthiness: an absent or empty id, and an absent or zero token count, are ignored.
\<close>

definition on_llm_response :: "string option \<Rightarrow> int option \<Rightarrow> PolicyEnforcer \<Rightarrow> PolicyEnforcer" where
  "on_llm_response correlationId totalTokens pe =
     (case boundHandler pe of
        None \<Rightarrow> pe
      | Some resolveAgent \<Rightarrow>
          (case (correlationId, totalTokens) of
             (Some cid, Some n) \<Rightarrow>
               if cid \<noteq> [] \<and> n \<noteq> 0
               then (case resolveAgent cid of
                       None \<Rightarrow> pe
                     | Some agentName \<Rightarrow> if agentName \<noteq> [] then addTokenUsage agentName n pe else pe)
               else pe
           | _ \<Rightarrow> pe))"

definition PolicyEnforcer_clear :: "PolicyEnforcer \<Rightarrow> PolicyEnforcer" where
  "PolicyEnforcer_clear pe = pe\<lparr>boundHandler := None, budgets := Map.empty\<rparr>"

section \<open>Message router (message-router.ts, class MessageRouter)\<close>

record AgentMessage =
  msgId :: string
  msgFrom :: string
  msgTo :: string
  payload :: string
  timestamp :: string

datatype router_event =
    MessageSent AgentMessage
  | HandlerCalled string AgentMessage
  | MessageReceived AgentMessage

text \<open>
  \<open>sendTimestamps\<close> and \<open>policies\<close> are the two maps of the class. A handler is an
  opaque callback: \<open>handlers\<close> holds the names that have one, and calling it is logged in
  \<open>routerEvents\<close>, which is also what the router emitted on the event bus, oldest first.
\<close>

record MessageRouter =
  sendTimestamps :: "string \<rightharpoonup> int list"
  policies :: "string \<rightharpoonup> Policy"
  handlers :: "string set"
  routerEvents :: "router_event list"

definition new_MessageRouter :: MessageRouter where
  "new_MessageRouter = \<lparr>sendTimestamps = Map.empty, policies = Map.empty,
     handlers = {}, routerEvents = []\<rparr>"

definition registerHandler :: "string \<Rightarrow> MessageRouter \<Rightarrow> MessageRouter" where
  "registerHandler agentName r = r\<lparr>handlers := insert agentName (handlers r)\<rparr>"

definition setPolicy :: "string \<Rightarrow> Policy \<Rightarrow> MessageRouter \<Rightarrow> MessageRouter" where
  "setPolicy agentName policy r = r\<lparr>policies := (policies r)(agentName \<mapsto> policy)\<rparr>"

text \<open>\<^verbatim>\<open>this.sendTimestamps.get(agentName) ?? []\<close>\<close>

definition timestampsOf :: "MessageRouter \<Rightarrow> string \<Rightarrow> int list" where
  "timestampsOf r agentName = (case sendTimestamps r agentName of None \<Rightarrow> [] | Some ts \<Rightarrow> ts)"

text \<open>\<open>now\<close> is the value \<^verbatim>\<open>Date.now()\<close> returns inside the function, in milliseconds.\<close>

definition checkRateLimit :: "string \<Rightarrow> int \<Rightarrow> MessageRouter \<Rightarrow> error + unit" where
  "checkRateLimit agentName now r =
     (case policies r agentName of
        None \<Rightarrow> Inr ()
      | Some policy \<Rightarrow>
          (case maxMessagesPerSecond policy of
             None \<Rightarrow> Inr ()
           | Some maxPerSecond \<Rightarrow>
               (let timestamps = timestampsOf r agentName;
                    recentCount = length (filter (\<lambda>t. now - t < 1000) timestamps)
                in if recentCount \<ge> maxPerSecond
                   then Inl (RateLimitExceeded agentName maxPerSecond)
                   else Inr ())))"

definition recordSend :: "string \<Rightarrow> int \<Rightarrow> MessageRouter \<Rightarrow> MessageRouter" where
  "recordSend agentName now r =
     (let timestamps = timestampsOf r agentName;
          recent = filter (\<lambda>t. now - t < 2000) timestamps
      in r\<lparr>sendTimestamps := (sendTimestamps r)(agentName \<mapsto> recent @ [now])\<rparr>)"

text \<open>
  What one call of \<^verbatim>\<open>sendMessage\<close> reads from its environment: the fresh message id, the
  ISO time of the message, and the two clock readings, the first taken in
  \<^verbatim>\<open>checkRateLimit\<close> and the second in \<^verbatim>\<open>recordSend\<close>.
\<close>

record SendEnv =
  uuid :: string
  isoNow :: string
  nowCheck :: int
  nowRecord :: int

definition sendMessage ::
  "string \<Rightarrow> string \<Rightarrow> string \<Rightarrow> SendEnv \<Rightarrow> MessageRouter \<Rightarrow> (error + AgentMessage) \<times> MessageRouter" where
  "sendMessage sender recipient pl env r =
     (case checkRateLimit sender (nowCheck env) r of
        Inl e \<Rightarrow> (Inl e, r)
      | Inr _ \<Rightarrow>
          (let message = \<lparr>msgId = uuid env, msgFrom = sender, msgTo = recipient,
                          payload = pl, timestamp = isoNow env\<rparr>;
               r1 = recordSend sender (nowRecord env) r;
               r2 = r1\<lparr>routerEvents := routerEvents r1 @ [MessageSent message]\<rparr>;
               r3 = (if recipient \<in> handlers r2
                     then r2\<lparr>routerEvents := routerEvents r2 @
                            [HandlerCalled recipient message, MessageReceived message]\<rparr>
                     else r2)
           in (Inr message, r3)))"

definition MessageRouter_clear :: "MessageRouter \<Rightarrow> MessageRouter" where
  "MessageRouter_clear r = r\<lparr>handlers := {}, sendTimestamps := Map.empty, policies := Map.empty\<rparr>"

text \<open>
  A series of sends by one unit, each with its recipient, payload and environment
  readings: \<open>Some\<close> the router after the last one when every send returned, \<open>None\<close> as
  soon as one throws.
\<close>

fun sendAll :: "string \<Rightarrow> (string \<times> string \<times> SendEnv) list \<Rightarrow> MessageRouter \<Rightarrow> MessageRouter option" where
  "sendAll sender [] r = Some r"
| "sendAll sender ((recipient, pl, env) # rest) r =
     (case sendMessage sender recipient pl env r of
        (Inl e, _) \<Rightarrow> None
      | (Inr m, r') \<Rightarrow> sendAll sender rest r')"

text \<open>
  The clock never runs backwards: from time \<open>lo\<close> on, each send reads its two clock
  values in order, and the next send starts no earlier.
\<close>

fun chronological :: "int \<Rightarrow> (string \<times> string \<times> SendEnv) list \<Rightarrow> bool" where
  "chronological lo [] = True"
| "chronological lo ((recipient, pl, env) # rest) =
     (lo \<le> nowCheck env \<and> nowCheck env \<le> nowRecord env \<and> chronological (nowRecord env) rest)"

text \<open>The number of recorded sends of a unit inside the window that trails \<open>now\<close>.\<close>

definition recentSends :: "MessageRouter \<Rightarrow> string \<Rightarrow> int \<Rightarrow> nat" where
  "recentSends r agentName now = length (filter (\<lambda>t. now - t < 1000) (timestampsOf r agentName))"

section \<open>Claim graph (claim-graph.ts, class ClaimGraph)\<close>

datatype ClaimLinkType = supports | challenges

record ClaimLink =
  targetClaimId :: string
  linkType :: ClaimLinkType

text \<open>\<open>confidence\<close> is an exact real standing for the source's double.\<close>

record Claim =
  claimId :: string
  statement :: string
  evidence :: "string list"
  confidence :: real
  author :: string
  links :: "ClaimLink list"
  claimCreatedAt :: string

datatype claim_event =
    ClaimCreated Claim
  | ClaimChallenged string string
  | ClaimSupported string string

text \<open>
  \<open>claims\<close> is the \<^verbatim>\<open>Map<string, Claim>\<close> in insertion order: \<^verbatim>\<open>set\<close> on a new key
  appends, on a known key it replaces the value where it stands (\<^const>\<open>AList.update\<close>),
  and this is also how a mutation of a stored claim object is written.
  \<open>claimEvents\<close> is what the graph emitted on the event bus, oldest first.
\<close>

record ClaimGraph =
  claims :: "(string \<times> Claim) list"
  claimEvents :: "claim_event list"

definition new_ClaimGraph :: ClaimGraph where
  "new_ClaimGraph = \<lparr>claims = [], claimEvents = []\<rparr>"

text \<open>
  \<open>newId\<close> is the value of \<^verbatim>\<open>randomUUID()\<close> and \<open>now\<close> that of
  \<^verbatim>\<open>new Date().toISOString()\<close>. The defaults of the source (\<^verbatim>\<open>evidence = []\<close>,
  \<^verbatim>\<open>confidence = 0.5\<close>) are the caller's business here. The confidence is stored as given.
\<close>

definition addClaim ::
  "string \<Rightarrow> string \<Rightarrow> string list \<Rightarrow> real \<Rightarrow> string \<Rightarrow> string \<Rightarrow> ClaimGraph \<Rightarrow> Claim \<times> ClaimGraph" where
  "addClaim stmt auth ev conf newId now g =
     (let claim = \<lparr>claimId = newId, statement = stmt, evidence = ev, confidence = conf,
                    author = auth, links = [], claimCreatedAt = now\<rparr>
      in (claim, g\<lparr>claims := AList.update newId claim (claims g),
                   claimEvents := claimEvents g @ [ClaimCreated claim]\<rparr>))"

definition getClaim :: "string \<Rightarrow> ClaimGraph \<Rightarrow> Claim option" where
  "getClaim cid g = map_of (claims g) cid"

definition listClaims :: "ClaimGraph \<Rightarrow> Claim list" where
  "listClaims g = map snd (claims g)"

definition addLink :: "string \<Rightarrow> string \<Rightarrow> ClaimLinkType \<Rightarrow> ClaimGraph \<Rightarrow> error + ClaimGraph" where
  "addLink targetId sourceId ty g =
     (case map_of (claims g) targetId of
        None \<Rightarrow> Inl (ClaimNotFound targetId)
      | Some target \<Rightarrow>
          (case map_of (claims g) sourceId of
             None \<Rightarrow> Inl (ClaimNotFound sourceId)
           | Some source \<Rightarrow>
               Inr (g\<lparr>claims := AList.update sourceId
                     (source\<lparr>links := links source @
                        [\<lparr>targetClaimId = targetId, linkType = ty\<rparr>]\<rparr>) (claims g)\<rparr>)))"

definition challengeClaim :: "string \<Rightarrow> string \<Rightarrow> ClaimGraph \<Rightarrow> error + ClaimGraph" where
  "challengeClaim targetId challengerId g =
     (case addLink targetId challengerId challenges g of
        Inl e \<Rightarrow> Inl e
      | Inr g1 \<Rightarrow>
          (let g2 = (case map_of (claims g1) targetId of
                       None \<Rightarrow> g1
                     | Some target \<Rightarrow>
                         g1\<lparr>claims := AList.update targetId
                            (target\<lparr>confidence := max 0 (confidence target - 1/10)\<rparr>) (claims g1)\<rparr>)
           in Inr (g2\<lparr>claimEvents := claimEvents g2 @
                        [ClaimChallenged targetId challengerId]\<rparr>)))"

definition supportClaim :: "string \<Rightarrow> string \<Rightarrow> ClaimGraph \<Rightarrow> error + ClaimGraph" where
  "supportClaim targetId supporterId g =
     (case addLink targetId supporterId supports g of
        Inl e \<Rightarrow> Inl e
      | Inr g1 \<Rightarrow>
          (let g2 = (case map_of (claims g1) targetId of
                       None \<Rightarrow> g1
                     | Some target \<Rightarrow>
                         g1\<lparr>claims := AList.update targetId
                            (target\<lparr>confidence := min 1 (confidence target + 1/10)\<rparr>) (claims g1)\<rparr>)
           in Inr (g2\<lparr>claimEvents := claimEvents g2 @
                        [ClaimSupported targetId supporterId]\<rparr>)))"

record ClaimSummary =
  total :: nat
  consensus :: "string list"
  conflicts :: "string list"
  summaryClaims :: "Claim list"

text \<open>The set \<^verbatim>\<open>challengedIds\<close> that the two nested loops of \<^verbatim>\<open>summarize\<close> build.\<close>

definition challengedIds :: "Claim list \<Rightarrow> string set" where
  "challengedIds all =
     set (concat (map (\<lambda>claim. map targetClaimId
            (filter (\<lambda>link. linkType link = challenges) (links claim))) all))"

text \<open>The two \<^verbatim>\<open>all.filter(...)\<close> of \<^verbatim>\<open>summarize\<close>, before \<^verbatim>\<open>.map((c) => c.statement)\<close>.\<close>

definition consensusClaims :: "ClaimGraph \<Rightarrow> Claim list" where
  "consensusClaims g =
     filter (\<lambda>c. confidence c \<ge> 7/10 \<and> claimId c \<notin> challengedIds (listClaims g)) (listClaims g)"

definition conflictClaims :: "ClaimGraph \<Rightarrow> Claim list" where
  "conflictClaims g = filter (\<lambda>c. claimId c \<in> challengedIds (listClaims g)) (listClaims g)"

text \<open>
  The sort by descending confidence is stable, as \<^verbatim>\<open>Array.prototype.sort\<close> is:
  \<^const>\<open>sort_key\<close> on the negated confidence.
\<close>

definition summarize :: "ClaimGraph \<Rightarrow> ClaimSummary" where
  "summarize g =
     (let all = listClaims g
      in \<lparr>total = length all,
          consensus = map statement (consensusClaims g),
          conflicts = map statement (conflictClaims g),
          summaryClaims = sort_key (\<lambda>c. - confidence c) all\<rparr>)"

definition ClaimGraph_clear :: "ClaimGraph \<Rightarrow> ClaimGraph" where
  "ClaimGraph_clear g = g\<lparr>claims := []\<rparr>"

text \<open>
  A caller's series of challenge and support calls. A call that throws has changed
  nothing, and the caller goes on with the next one.
\<close>

datatype claim_op = ChallengeOp string string | SupportOp string string

fun apply_claim_op :: "claim_op \<Rightarrow> ClaimGraph \<Rightarrow> ClaimGraph" where
  "apply_claim_op (ChallengeOp targetId challengerId) g =
     (case challengeClaim targetId challengerId g of Inl e \<Rightarrow> g | Inr g' \<Rightarrow> g')"
| "apply_claim_op (SupportOp targetId supporterId) g =
     (case supportClaim targetId supporterId g of Inl e \<Rightarrow> g | Inr g' \<Rightarrow> g')"

definition apply_claim_ops :: "claim_op list \<Rightarrow> ClaimGraph \<Rightarrow> ClaimGraph" where
  "apply_claim_ops ops g = fold apply_claim_op ops g"

section \<open>Job scheduler (scheduler.ts, class Scheduler)\<close>

datatype JobStatus = Pending | Running | Completed | Cancelled | Failed

record Job =
  jobId :: string
  agentName :: string
  task :: string
  status :: JobStatus
  result :: "string option"
  jobError :: "string option"
  createdAt :: string

text \<open>
  The completion promise of a \<^verbatim>\<open>JobHandle\<close>. Its \<^verbatim>\<open>resolve\<close> and \<^verbatim>\<open>reject\<close> functions
  settle it once; a later call of either is ignored, as for every JavaScript promise.
\<close>

datatype promise = Unsettled | Resolved string | Rejected string

text \<open>
  \<^verbatim>\<open>QueuedJob\<close>: \<open>job\<close> is the reference to the shared \<^verbatim>\<open>Job\<close> object, which is the
  job's id (the object lives in \<open>heap\<close> under its id). The three closures of the source
  are not fields: \<^verbatim>\<open>resolve\<close> and \<^verbatim>\<open>reject\<close> act on the promise stored under the same id,
  and \<^verbatim>\<open>execute\<close> is the opaque body whose progress is kept in \<open>bodies\<close>.
\<close>

record QueuedJob =
  job :: string
  correlationId :: "string option"

text \<open>
  Where the promise chain that \<^verbatim>\<open>startJob\<close> hangs on \<^verbatim>\<open>item.execute()\<close> stands:
  \<open>Executing\<close> until the body settles and the \<^verbatim>\<open>then\<close> or the \<^verbatim>\<open>catch\<close> callback has
  run, \<open>Settling\<close> from there until the \<^verbatim>\<open>finally\<close> callback has run.
\<close>

datatype body_phase = Executing | Settling

datatype sched_event =
    JobScheduled string "string option"
  | JobCompleted string JobStatus "string option"
  | JobCancelled string "string option"

text \<open>
  The first five fields are the fields of the class; \<open>running\<close> is the
  \<^verbatim>\<open>Map<string, QueuedJob>\<close> in insertion order and \<open>allJobs\<close> holds references.
  The other four are the objects the scheduler shares with its callers and the
  JavaScript runtime: the \<^verbatim>\<open>Job\<close> objects, the handles' promises, the bodies in flight
  with the item their callbacks close over, and the events emitted, oldest first.
  \<open>maxParallel\<close> is a whole number of jobs.
\<close>

record Scheduler =
  queue :: "QueuedJob list"
  running :: "(string \<times> QueuedJob) list"
  allJobs :: "string list"
  maxParallel :: nat
  paused :: bool
  heap :: "string \<rightharpoonup> Job"
  promises :: "string \<rightharpoonup> promise"
  bodies :: "string \<rightharpoonup> body_phase \<times> QueuedJob"
  schedEvents :: "sched_event list"

definition new_Scheduler :: "nat \<Rightarrow> Scheduler" where
  "new_Scheduler n = \<lparr>queue = [], running = [], allJobs = [], maxParallel = n, paused = False,
     heap = Map.empty, promises = Map.empty, bodies = Map.empty, schedEvents = []\<rparr>"

text \<open>An assignment to fields of the \<^verbatim>\<open>Job\<close> object that \<open>jid\<close> refers to.\<close>

definition updJob :: "string \<Rightarrow> (Job \<Rightarrow> Job) \<Rightarrow> Scheduler \<Rightarrow> Scheduler" where
  "updJob jid f s =
     s\<lparr>heap := (case heap s jid of None \<Rightarrow> heap s | Some j \<Rightarrow> (heap s)(jid \<mapsto> f j))\<rparr>"

definition setStatus :: "string \<Rightarrow> JobStatus \<Rightarrow> Scheduler \<Rightarrow> Scheduler" where
  "setStatus jid st s = updJob jid (\<lambda>j. j\<lparr>status := st\<rparr>) s"

text \<open>\<^verbatim>\<open>item.resolve(v)\<close> and \<^verbatim>\<open>item.reject(e)\<close>: only an unsettled promise changes.\<close>

definition settle :: "string \<Rightarrow> promise \<Rightarrow> Scheduler \<Rightarrow> Scheduler" where
  "settle jid outcome s =
     s\<lparr>promises := (case promises s jid of
                       Some Unsettled \<Rightarrow> (promises s)(jid \<mapsto> outcome)
                     | _ \<Rightarrow> promises s)\<rparr>"

definition emit :: "sched_event \<Rightarrow> Scheduler \<Rightarrow> Scheduler" where
  "emit ev s = s\<lparr>schedEvents := schedEvents s @ [ev]\<rparr>"

text \<open>
  \<^verbatim>\<open>startJob\<close>, up to and including the call \<^verbatim>\<open>item.execute()\<close>, which puts the body in
  flight. The three callbacks it registers are \<open>onFulfilled\<close>, \<open>onRejected\<close> and
  \<open>onFinally\<close> below; the runtime calls them later.
\<close>

definition startJob :: "QueuedJob \<Rightarrow> Scheduler \<Rightarrow> Scheduler" where
  "startJob item s =
     (let s1 = setStatus (job item) Running s;
          s2 = s1\<lparr>running := AList.update (job item) item (running s1)\<rparr>
      in s2\<lparr>bodies := (bodies s2)(job item \<mapsto> (Executing, item))\<rparr>)"

text \<open>
  The loop of \<^verbatim>\<open>drain\<close>: its condition, and one iteration (\<^verbatim>\<open>shift\<close>, then \<^verbatim>\<open>startJob\<close>).
  The loop only iterates on a non-empty queue.
\<close>

definition drainCond :: "Scheduler \<Rightarrow> bool" where
  "drainCond s \<longleftrightarrow> length (running s) < maxParallel s \<and> queue s \<noteq> []"

definition drainIteration :: "Scheduler \<Rightarrow> Scheduler" where
  "drainIteration s =
     (case queue s of
        [] \<Rightarrow> s
      | item # rest \<Rightarrow> startJob item (s\<lparr>queue := rest\<rparr>))"

function drainLoop :: "Scheduler \<Rightarrow> Scheduler" where
  "drainLoop s = (if drainCond s then drainLoop (drainIteration s) else s)"
  by pat_completeness auto
termination
  by (relation "measure (\<lambda>s. length (queue s))")
     (auto simp: drainCond_def drainIteration_def startJob_def setStatus_def updJob_def Let_def
        split: list.splits)

declare drainLoop.simps [simp del]

definition drain :: "Scheduler \<Rightarrow> Scheduler" where
  "drain s = (if paused s then s else drainLoop s)"

text \<open>
  \<^verbatim>\<open>enqueue\<close> before its call of \<^verbatim>\<open>drain\<close>. \<open>jid\<close> is the value of \<^verbatim>\<open>randomUUID()\<close> and
  \<open>now\<close> that of \<^verbatim>\<open>new Date().toISOString()\<close>; the handle returned is the pair of the
  \<^verbatim>\<open>Job\<close> object and the promise, both found under \<open>jid\<close>.
\<close>

definition enqueuePush ::
  "string \<Rightarrow> string \<Rightarrow> string \<Rightarrow> string option \<Rightarrow> string \<Rightarrow> Scheduler \<Rightarrow> Scheduler" where
  "enqueuePush jid aName aTask corrId now s =
     (let newJob = \<lparr>jobId = jid, agentName = aName, task = aTask, status = Pending,
                     result = None, jobError = None, createdAt = now\<rparr>;
          s1 = s\<lparr>heap := (heap s)(jid \<mapsto> newJob), allJobs := allJobs s @ [jid]\<rparr>;
          s2 = s1\<lparr>promises := (promises s1)(jid \<mapsto> Unsettled)\<rparr>;
          s3 = s2\<lparr>queue := queue s2 @ [\<lparr>job = jid, correlationId = corrId\<rparr>]\<rparr>
      in emit (JobScheduled jid corrId) s3)"

definition enqueue ::
  "string \<Rightarrow> string \<Rightarrow> string \<Rightarrow> string option \<Rightarrow> string \<Rightarrow> Scheduler \<Rightarrow> Scheduler" where
  "enqueue jid aName aTask corrId now s = drain (enqueuePush jid aName aTask corrId now s)"

text \<open>The three callbacks of \<^verbatim>\<open>startJob\<close>, for the item they close over.\<close>

definition onFulfilled :: "QueuedJob \<Rightarrow> string \<Rightarrow> Scheduler \<Rightarrow> Scheduler" where
  "onFulfilled item res s =
     (let s1 = setStatus (job item) Completed s;
          s2 = updJob (job item) (\<lambda>j. j\<lparr>result := Some res\<rparr>) s1;
          s3 = emit (JobCompleted (job item) Completed (correlationId item)) s2
      in settle (job item) (Resolved res) s3)"

definition onRejected :: "QueuedJob \<Rightarrow> string \<Rightarrow> Scheduler \<Rightarrow> Scheduler" where
  "onRejected item err s =
     (let s1 = setStatus (job item) Failed s;
          s2 = updJob (job item) (\<lambda>j. j\<lparr>jobError := Some err\<rparr>) s1;
          s3 = emit (JobCompleted (job item) Failed (correlationId item)) s2
      in settle (job item) (Rejected err) s3)"

definition finallyDelete :: "QueuedJob \<Rightarrow> Scheduler \<Rightarrow> Scheduler" where
  "finallyDelete item s = s\<lparr>running := AList.delete (job item) (running s)\<rparr>"

definition onFinally :: "QueuedJob \<Rightarrow> Scheduler \<Rightarrow> Scheduler" where
  "onFinally item s = drain (finallyDelete item s)"

definition pause :: "Scheduler \<Rightarrow> Scheduler" where
  "pause s = s\<lparr>paused := True\<rparr>"

definition resumeFlag :: "Scheduler \<Rightarrow> Scheduler" where
  "resumeFlag s = s\<lparr>paused := False\<rparr>"

definition resume :: "Scheduler \<Rightarrow> Scheduler" where
  "resume s = drain (resumeFlag s)"

text \<open>\<^verbatim>\<open>Array.prototype.findIndex\<close>, with \<open>None\<close> for \<^verbatim>\<open>-1\<close>.\<close>

fun findIndex :: "('a \<Rightarrow> bool) \<Rightarrow> 'a list \<Rightarrow> nat option" where
  "findIndex P [] = None"
| "findIndex P (x # xs) = (if P x then Some 0 else map_option Suc (findIndex P xs))"

definition cancelMessage :: "string \<Rightarrow> string" where
  "cancelMessage jid = ''Job '' @ jid @ '' cancelled''"

text \<open>
  The three statements that \<^verbatim>\<open>cancel\<close> runs on a pending item and that both loops of
  \<^verbatim>\<open>cancelAll\<close> run on each item: mark cancelled, emit \<^verbatim>\<open>job:cancelled\<close>, reject.
\<close>

definition cancelItem :: "string \<Rightarrow> QueuedJob \<Rightarrow> Scheduler \<Rightarrow> Scheduler" where
  "cancelItem jid item s =
     (let s1 = setStatus (job item) Cancelled s;
          s2 = emit (JobCancelled jid (correlationId item)) s1
      in settle (job item) (Rejected (cancelMessage jid)) s2)"

text \<open>
  \<^verbatim>\<open>cancel\<close>: the boolean is the value returned. In the queue an item is looked up by the
  id of its job; a running item is marked and announced, and nothing else.
\<close>

definition cancel :: "string \<Rightarrow> Scheduler \<Rightarrow> bool \<times> Scheduler" where
  "cancel jid s =
     (case findIndex (\<lambda>q. job q = jid) (queue s) of
        Some idx \<Rightarrow>
          (let item = queue s ! idx;
               s1 = s\<lparr>queue := take idx (queue s) @ drop (Suc idx) (queue s)\<rparr>
           in (True, cancelItem jid item s1))
      | None \<Rightarrow>
          (case map_of (running s) jid of
             Some item \<Rightarrow>
               (let s1 = setStatus (job item) Cancelled s
                in (True, emit (JobCancelled jid (correlationId item)) s1))
           | None \<Rightarrow> (False, s)))"

definition cancelAll :: "Scheduler \<Rightarrow> Scheduler" where
  "cancelAll s =
     (let s1 = fold (\<lambda>item. cancelItem (job item) item) (queue s) s;
          s2 = s1\<lparr>queue := []\<rparr>;
          s3 = fold (\<lambda>(jid, item). cancelItem jid item) (running s2) s2
      in s3\<lparr>running := []\<rparr>)"

definition getJobs :: "Scheduler \<Rightarrow> Job list" where
  "getJobs s = List.map_filter (heap s) (map job (queue s) @ map (\<lambda>(jid, item). job item) (running s))"


definition activeCount :: "Scheduler \<Rightarrow> nat" where
  "activeCount s = length (running s)"

definition pendingCount :: "Scheduler \<Rightarrow> nat" where
  "pendingCount s = length (queue s)"

text \<open>The jobs in the pending queue and those in the running set, as \<^verbatim>\<open>getJobs\<close> reads them.\<close>

definition pendingJobs :: "Scheduler \<Rightarrow> string list" where
  "pendingJobs s = map job (queue s)"

definition activeJobs :: "Scheduler \<Rightarrow> string list" where
  "activeJobs s = map (\<lambda>(jid, item). job item) (running s)"

definition statusOf :: "Scheduler \<Rightarrow> string \<Rightarrow> JobStatus option" where
  "statusOf s jid = map_option status (heap s jid)"

subsection \<open>What can happen to a scheduler\<close>

text \<open>
  The calls of the public methods, and the three callbacks that the runtime runs for a
  job whose body is in flight: \<open>BodyFulfilled\<close> when the body returned a result,
  \<open>BodyRejected\<close> when it threw, and \<open>BodyFinally\<close> after either.

  A body that \<^verbatim>\<open>drain\<close> starts runs at once up to its first \<^verbatim>\<open>await\<close> and may call the
  scheduler from there (a unit that spawns another does so), that is in the middle of
  \<^verbatim>\<open>enqueue\<close>, \<^verbatim>\<open>resume\<close> or the \<^verbatim>\<open>finally\<close> callback. The last four operations are the
  pieces such a call can fall between: each of the three up to its call of \<^verbatim>\<open>drain\<close>,
  and one iteration of the loop of \<^verbatim>\<open>drain\<close>, possible whenever the loop's condition
  holds.
\<close>

datatype sched_op =
    Enqueue string string string "string option" string
  | Pause
  | Resume
  | Cancel string
  | CancelAll
  | BodyFulfilled string string
  | BodyRejected string string
  | BodyFinally string
  | EnqueuePush string string string "string option" string
  | ResumeFlag
  | FinallyDelete string
  | DrainIteration

text \<open>
  \<open>None\<close> when the operation cannot happen in the state: an id that \<^verbatim>\<open>randomUUID\<close>
  returns is new, a callback runs only for a body in the matching phase, and the loop
  iterates only under its condition.
\<close>

fun exec :: "sched_op \<Rightarrow> Scheduler \<Rightarrow> Scheduler option" where
  "exec (Enqueue jid aName aTask corrId now) s =
     (if jid \<in> dom (heap s) then None else Some (enqueue jid aName aTask corrId now s))"
| "exec Pause s = Some (pause s)"
| "exec Resume s = Some (resume s)"
| "exec (Cancel jid) s = Some (snd (cancel jid s))"
| "exec CancelAll s = Some (cancelAll s)"
| "exec (BodyFulfilled jid res) s =
     (case bodies s jid of
        Some (Executing, item) \<Rightarrow>
          Some (onFulfilled item res (s\<lparr>bodies := (bodies s)(jid \<mapsto> (Settling, item))\<rparr>))
      | _ \<Rightarrow> None)"
| "exec (BodyRejected jid err) s =
     (case bodies s jid of
        Some (Executing, item) \<Rightarrow>
          Some (onRejected item err (s\<lparr>bodies := (bodies s)(jid \<mapsto> (Settling, item))\<rparr>))
      | _ \<Rightarrow> None)"
| "exec (BodyFinally jid) s =
     (case bodies s jid of
        Some (Settling, item) \<Rightarrow> Some (onFinally item (s\<lparr>bodies := (bodies s)(jid := None)\<rparr>))
      | _ \<Rightarrow> None)"
| "exec (EnqueuePush jid aName aTask corrId now) s =
     (if jid \<in> dom (heap s) then None else Some (enqueuePush jid aName aTask corrId now s))"
| "exec ResumeFlag s = Some (resumeFlag s)"
| "exec (FinallyDelete jid) s =
     (case bodies s jid of
        Some (Settling, item) \<Rightarrow> Some (finallyDelete item (s\<lparr>bodies := (bodies s)(jid := None)\<rparr>))
      | _ \<Rightarrow> None)"
| "exec DrainIteration s = (if drainCond s then Some (drainIteration s) else None)"

fun execs :: "sched_op list \<Rightarrow> Scheduler \<Rightarrow> Scheduler option" where
  "execs [] s = Some s"
| "execs (x # xs) s = (case exec x s of None \<Rightarrow> None | Some s' \<Rightarrow> execs xs s')"

definition terminal :: "JobStatus \<Rightarrow> bool" where
  "terminal st \<longleftrightarrow> st = Completed \<or> st = Cancelled \<or> st = Failed"

section \<open>Registry and shared services (registry.ts, types.ts)\<close>

text \<open>
  \<^verbatim>\<open>AgentDefinition\<close>. The optional \<^verbatim>\<open>executor\<close> callback is kept as a label only: what a
  body does when it runs belongs to the scheduler's environment.
\<close>

record AgentDefinition =
  name :: string
  prompt :: string
  tools :: "string list"
  policy :: Policy
  mcpServers :: "string list"
  executor :: "string option"

text \<open>
  The registry's three maps, in insertion order. Tools and MCP servers are kept by
  name, which is all the modelled code reads of them.
\<close>

record Registry =
  agents :: "(string \<times> AgentDefinition) list"
  toolNames :: "string list"
  mcps :: "string list"

definition hasAgent :: "string \<Rightarrow> Registry \<Rightarrow> bool" where
  "hasAgent n reg \<longleftrightarrow> map_of (agents reg) n \<noteq> None"





definition Registry_registerAgent :: "AgentDefinition \<Rightarrow> Registry \<Rightarrow> error + Registry" where
  "Registry_registerAgent d reg =
     (if hasAgent (name d) reg then Inl (AlreadyRegistered (name d))
      else Inr (reg\<lparr>agents := AList.update (name d) d (agents reg)\<rparr>))"


datatype RunStatus = RunIdle | RunRunning | RunPaused | RunCompleted | RunCancelled | RunFailed

datatype bus_event =
    AgentSpawned string string string
  | AgentError string string string
  | RunStarted string string
  | RunFinished RunStatus string

text \<open>
  The objects that an \<^verbatim>\<open>ExecutionContext\<close> creates once and hands by reference to every
  \<^verbatim>\<open>AgentRuntime\<close>. \<open>busEvents\<close> holds the events that the execution context and the
  runtimes emit themselves; each component above logs its own.
\<close>

record Services =
  registry :: Registry
  policyEnforcer :: PolicyEnforcer
  messageRouter :: MessageRouter
  scheduler :: Scheduler
  claimGraph :: ClaimGraph
  busEvents :: "bus_event list"

section \<open>Runtime context (agent-runtime.ts, AgentRuntime.spawnAgent)\<close>

text \<open>
  \<^verbatim>\<open>spawnAgent\<close> of the runtime of unit \<open>parent\<close> with correlation id \<open>corr\<close>, up to
  its \<^verbatim>\<open>return handle.promise\<close>; the promise is the one stored under \<open>jid\<close>, the job id
  that \<^verbatim>\<open>enqueue\<close> draws. The registry is written only for an unknown name (so its
  \<^verbatim>\<open>registerAgent\<close> cannot throw here); the budget, the handler and the message policy are
  registered in every case (\<^verbatim>\<open>definition.policy\<close> is an object, hence truthy). The tools
  resolved for the body change no state.
\<close>

definition spawnAgent ::
  "string \<Rightarrow> string \<Rightarrow> AgentDefinition \<Rightarrow> string \<Rightarrow> string \<Rightarrow> string \<Rightarrow> Services \<Rightarrow> Services" where
  "spawnAgent parent corr d tsk jid now sv =
     (let reg1 = (if \<not> hasAgent (name d) (registry sv)
                  then (case Registry_registerAgent d (registry sv) of
                          Inl e \<Rightarrow> registry sv | Inr reg' \<Rightarrow> reg')
                  else registry sv);
          pe1 = registerAgent (name d) (policy d) (policyEnforcer sv);
          mr1 = registerHandler (name d) (messageRouter sv);
          mr2 = setPolicy (name d) (policy d) mr1;
          ev1 = busEvents sv @ [AgentSpawned (name d) parent corr];
          sch1 = enqueue jid (name d) tsk (Some corr) now (scheduler sv)
      in sv\<lparr>registry := reg1, policyEnforcer := pe1, messageRouter := mr2,
             busEvents := ev1, scheduler := sch1\<rparr>)"

text \<open>
  No counter went down from one enforcer to the other: every unit with a budget record
  before has one after, with both counters at least as large.
\<close>

definition usageNotDecreased :: "PolicyEnforcer \<Rightarrow> PolicyEnforcer \<Rightarrow> bool" where
  "usageNotDecreased pe pe' \<longleftrightarrow>
     (\<forall>u b. budgets pe u = Some b \<longrightarrow>
        (\<exists>b'. budgets pe' u = Some b' \<and> tokensUsed b \<le> tokensUsed b' \<and> costUsed b \<le> costUsed b'))"

section \<open>Execution pipeline (execution-context.ts, class ExecutionContext)\<close>

text \<open>The calls that \<^verbatim>\<open>run()\<close> makes, in the order of its source.\<close>

datatype run_call =
    Validate | ConnectMCPServers | MaterializeAgents | AutoDescribeTools | ExecuteAgents
  | Summarize | GetAllJobs | Cleanup

text \<open>
  \<open>calls\<close> is not a field of the class: it records which of its calls \<^verbatim>\<open>run()\<close> has
  made so far, oldest first, so that "this phase was executed" can be stated.
\<close>

record ExecutionContext =
  services :: Services
  mcpClients :: "string list"
  runStatus :: RunStatus
  runCorrelationId :: string
  calls :: "run_call list"



definition called :: "run_call \<Rightarrow> ExecutionContext \<Rightarrow> ExecutionContext" where
  "called x c = c\<lparr>calls := calls c @ [x]\<rparr>"

definition busEmit :: "bus_event \<Rightarrow> ExecutionContext \<Rightarrow> ExecutionContext" where
  "busEmit ev c = c\<lparr>services := (services c)\<lparr>busEvents := busEvents (services c) @ [ev]\<rparr>\<rparr>"













text \<open>
  \<^verbatim>\<open>cleanup\<close>: the budget state is cleared and every client disconnected; a disconnect
  that throws is swallowed.
\<close>

definition cleanup :: "ExecutionContext \<Rightarrow> ExecutionContext" where
  "cleanup c =
     (let c1 = c\<lparr>services := (services c)\<lparr>policyEnforcer :=
                     PolicyEnforcer_clear (policyEnforcer (services c))\<rparr>\<rparr>
      in c1\<lparr>mcpClients := []\<rparr>)"





subsection \<open>Invariant of the scheduler\<close>

text \<open>
  What holds of the queue, of the running set and of the bodies in flight in every state
  the operations can reach. \<open>frame j\<close> says that a step left job \<open>j\<close> alone, and
  \<open>retired j\<close> that \<open>j\<close> is known, in neither collection and without a body in flight.
\<close>

definition qInv :: "Scheduler \<Rightarrow> bool" where
  "qInv s \<longleftrightarrow>
     distinct (map job (queue s)) \<and>
     (\<forall>q \<in> set (queue s). job q \<in> dom (heap s) \<and> bodies s (job q) = None \<and>
         statusOf s (job q) = Some Pending \<and> promises s (job q) = Some Unsettled)"

definition rInv :: "nat \<Rightarrow> Scheduler \<Rightarrow> bool" where
  "rInv n s \<longleftrightarrow>
     maxParallel s = n \<and>
     length (running s) \<le> n \<and>
     distinct (map fst (running s)) \<and>
     (\<forall>jid item. (jid, item) \<in> set (running s) \<longrightarrow>
         job item = jid \<and> bodies s jid \<noteq> None \<and>
         (\<forall>it. bodies s jid = Some (Executing, it) \<longrightarrow> promises s jid = Some Unsettled))"

definition bInv :: "Scheduler \<Rightarrow> bool" where
  "bInv s \<longleftrightarrow>
     (\<forall>jid ph item. bodies s jid = Some (ph, item) \<longrightarrow> job item = jid \<and> jid \<in> dom (heap s))"

definition schedInv :: "nat \<Rightarrow> Scheduler \<Rightarrow> bool" where
  "schedInv n s \<longleftrightarrow> qInv s \<and> rInv n s \<and> bInv s"

definition frame :: "string \<Rightarrow> Scheduler \<Rightarrow> Scheduler \<Rightarrow> bool" where
  "frame j s s' \<longleftrightarrow>
     heap s' j = heap s j \<and> promises s' j = promises s j \<and> bodies s' j = bodies s j \<and>
     (j \<in> fst ` set (running s') \<longrightarrow> j \<in> fst ` set (running s)) \<and>
     (\<forall>q\<in>set (queue s'). job q \<noteq> j)"

definition retired :: "string \<Rightarrow> Scheduler \<Rightarrow> bool" where
  "retired j s \<longleftrightarrow>
     j \<in> dom (heap s) \<and> (\<forall>q\<in>set (queue s). job q \<noteq> j) \<and>
     j \<notin> fst ` set (running s) \<and> bodies s j = None"

section \<open>Budget tracker: results\<close>

text \<open>
  Claim C8. \<^verbatim>\<open>checkBudget(name)\<close> throws exactly when the unit has a budget record and,
  for a limit that is set in its policy (\<^verbatim>\<open>maxTokens\<close> or \<^verbatim>\<open>maxCost\<close>), the matching
  accumulated counter has reached that limit. It throws nothing when neither limit is
  configured, and the enforcer (hence every counter) is the same after the call.
\<close>

theorem checkBudget_throws_iff_limit_reached:
  "((\<exists>e. fst (checkBudget u pe) = Inl e) \<longleftrightarrow>
      (\<exists>b. budgets pe u = Some b \<and>
         ((\<exists>m. maxTokens (budgetPolicy b) = Some m \<and> tokensUsed b \<ge> m) \<or>
          (\<exists>m. maxCost (budgetPolicy b) = Some m \<and> costUsed b \<ge> m))))
   \<and> ((\<forall>b. budgets pe u = Some b \<longrightarrow>
          maxTokens (budgetPolicy b) = None \<and> maxCost (budgetPolicy b) = None)
        \<longrightarrow> fst (checkBudget u pe) = Inr ())
   \<and> snd (checkBudget u pe) = pe"
  by (auto simp: checkBudget_def Let_def split: option.splits)

theorem checkBudget_throws_iff_limit_reached_witness:
  "budgets (addTokenUsage ''A'' 999999 (registerAgent ''A'' emptyPolicy new_PolicyEnforcer)) ''A''
      = Some \<lparr>budgetPolicy = emptyPolicy, tokensUsed = 999999, costUsed = 0\<rparr>
   \<and> maxTokens emptyPolicy = None \<and> maxCost emptyPolicy = None
   \<and> fst (checkBudget ''A''
        (addTokenUsage ''A'' 999999 (registerAgent ''A'' emptyPolicy new_PolicyEnforcer))) = Inr ()
   \<and> (\<exists>e. fst (checkBudget ''A''
        (addTokenUsage ''A'' 100
          (registerAgent ''A'' (emptyPolicy\<lparr>maxTokens := Some 100\<rparr>) new_PolicyEnforcer))) = Inl e)"
proof -
  let ?pe = "addTokenUsage ''A'' 999999 (registerAgent ''A'' emptyPolicy new_PolicyEnforcer)"
  let ?pe2 = "addTokenUsage ''A'' 100
          (registerAgent ''A'' (emptyPolicy\<lparr>maxTokens := Some 100\<rparr>) new_PolicyEnforcer)"
  have b1: "budgets ?pe ''A''
      = Some \<lparr>budgetPolicy = emptyPolicy, tokensUsed = 999999, costUsed = 0\<rparr>"
    by (simp add: addTokenUsage_def registerAgent_def new_PolicyEnforcer_def)
  have e: "maxTokens emptyPolicy = None \<and> maxCost emptyPolicy = None"
    by (simp add: emptyPolicy_def)
  have b2: "\<exists>b. budgets ?pe2 ''A'' = Some b \<and>
         ((\<exists>m. maxTokens (budgetPolicy b) = Some m \<and> tokensUsed b \<ge> m) \<or>
          (\<exists>m. maxCost (budgetPolicy b) = Some m \<and> costUsed b \<ge> m))"
    by (simp add: addTokenUsage_def registerAgent_def new_PolicyEnforcer_def emptyPolicy_def)
  from b1 e checkBudget_throws_iff_limit_reached [of "''A''" ?pe]
  have "fst (checkBudget ''A'' ?pe) = Inr ()" by simp
  moreover from b2 checkBudget_throws_iff_limit_reached [of "''A''" ?pe2]
  have "\<exists>e. fst (checkBudget ''A'' ?pe2) = Inl e" by blast
  ultimately show ?thesis using b1 e by blast
qed

section \<open>Message router: results\<close>

lemma send_ok_iff:
  "policies r a = Some p \<Longrightarrow> maxMessagesPerSecond p = Some k \<Longrightarrow>
   (\<exists>m. fst (sendMessage a b pl env r) = Inr m) \<longleftrightarrow> recentSends r a (nowCheck env) < k"
  by (auto simp: sendMessage_def checkRateLimit_def recentSends_def Let_def split: sum.splits)

lemma send_fail:
  "policies r a = Some p \<Longrightarrow> maxMessagesPerSecond p = Some k \<Longrightarrow>
   \<not> recentSends r a (nowCheck env) < k \<Longrightarrow> sendMessage a b pl env r = (Inl (RateLimitExceeded a k), r)"
  by (auto simp: sendMessage_def checkRateLimit_def recentSends_def Let_def split: sum.splits)

lemma send_ok:
  "policies r a = Some p \<Longrightarrow> maxMessagesPerSecond p = Some k \<Longrightarrow>
   recentSends r a (nowCheck env) < k \<Longrightarrow> \<exists>m r'. sendMessage a b pl env r = (Inr m, r')"
  by (auto simp: sendMessage_def checkRateLimit_def recentSends_def Let_def split: sum.splits)

lemma send_ok_state:
  "sendMessage a b pl env r = (Inr m, r') \<Longrightarrow>
   policies r' = policies r \<and> timestampsOf r' a = filter (\<lambda>t. nowRecord env - t < 2000) (timestampsOf r a) @ [nowRecord env]"
  by (auto simp: sendMessage_def recordSend_def timestampsOf_def Let_def split: sum.splits if_splits)

lemma recent_after_send:
  assumes "sendMessage a b pl env r = (Inr m, r')" "nowRecord env \<le> c"
  shows "recentSends r' a c = recentSends r a c + (if c - nowRecord env < 1000 then 1 else 0)"
proof -
  have "filter (\<lambda>t. c - t < 1000) (filter (\<lambda>t. nowRecord env - t < 2000) xs) = filter (\<lambda>t. c - t < 1000) xs" for xs
    using assms(2) by (induction xs) auto
  then show ?thesis using send_ok_state[OF assms(1)] by (simp add: recentSends_def)
qed

lemma sendAll_recent:
  "chronological lo ts \<Longrightarrow> sendAll a ts r = Some r' \<Longrightarrow>
   (\<forall>(b, pl, e) \<in> set ts. nowRecord e \<le> c) \<Longrightarrow>
   policies r' = policies r \<and>
   recentSends r' a c = recentSends r a c + length (filter (\<lambda>(b, pl, e). c - nowRecord e < 1000) ts)"
proof (induction ts arbitrary: lo r)
  case Nil
  then show ?case by simp
next
  case (Cons x ts)
  obtain b pl e where x: "x = (b, pl, e)" by (cases x)
  from Cons.prems(2) obtain m r1 where s1: "sendMessage a b pl e r = (Inr m, r1)"
    and rest: "sendAll a ts r1 = Some r'"
    by (auto simp: x split: prod.splits sum.splits)
  have le: "nowRecord e \<le> c" using Cons.prems(3) by (simp add: x)
  have chr: "chronological (nowRecord e) ts" using Cons.prems(1) by (simp add: x)
  have all: "\<forall>(b, pl, e) \<in> set ts. nowRecord e \<le> c" using Cons.prems(3) by simp
  from Cons.IH[OF chr rest all] recent_after_send[OF s1 le] send_ok_state[OF s1]
  show ?case by (simp add: x)
qed

lemma sendAll_succeeds:
  "policies r a = Some p \<Longrightarrow> maxMessagesPerSecond p = Some k \<Longrightarrow> chronological lo ts \<Longrightarrow>
   (\<forall>c\<ge>lo. recentSends r a c + length ts \<le> k) \<Longrightarrow> \<exists>r'. sendAll a ts r = Some r'"
proof (induction ts arbitrary: lo r)
  case Nil
  then show ?case by simp
next
  case (Cons x ts)
  obtain b pl e where x: "x = (b, pl, e)" by (cases x)
  have c1: "lo \<le> nowCheck e" "nowCheck e \<le> nowRecord e" and chr: "chronological (nowRecord e) ts"
    using Cons.prems(3) by (simp_all add: x)
  have "recentSends r a (nowCheck e) < k" using Cons.prems(4) c1(1) by fastforce
  from send_ok[OF Cons.prems(1,2) this] obtain m r1 where s1: "sendMessage a b pl e r = (Inr m, r1)"
    by blast
  have pol: "policies r1 a = Some p" using send_ok_state[OF s1] Cons.prems(1) by simp
  have "\<forall>c\<ge>nowRecord e. recentSends r1 a c + length ts \<le> k"
  proof (intro allI impI)
    fix c assume c: "nowRecord e \<le> c"
    then have "lo \<le> c" using c1 by linarith
    with Cons.prems(4) have "recentSends r a c + length (x # ts) \<le> k" by blast
    with recent_after_send[OF s1 c] show "recentSends r1 a c + length ts \<le> k" by simp
  qed
  from Cons.IH[OF pol Cons.prems(2) chr this] obtain r' where "sendAll a ts r1 = Some r'" by blast
  then show ?case using s1 by (simp add: x)
qed

text \<open>
  Claim C9, as amended. Let unit \<open>a\<close> have \<^verbatim>\<open>maxMessagesPerSecond = k\<close>. A send by \<open>a\<close>
  returns exactly when fewer than \<open>k\<close> of its recorded sends lie in the 1000 ms window
  trailing the clock reading of the check. Hence, with a clock that never runs backwards
  and no recorded send of \<open>a\<close> in a window at or after \<open>lo\<close>, any \<open>k\<close> sends all
  succeed; a further send whose window still holds all \<open>k\<close> of them throws the
  rate-limit error and leaves the router as it was; and, when \<open>k \<ge> 1\<close>, a further send
  made 1000 ms or more after each of them succeeds again.
\<close>

theorem rate_limit_window:
  assumes pol: "policies r a = Some p" "maxMessagesPerSecond p = Some k"
    and chr: "chronological lo ts" and len: "length ts = k"
    and old: "\<forall>c\<ge>lo. recentSends r a c = 0"
  shows "(\<forall>b pl env. (\<exists>m. fst (sendMessage a b pl env r) = Inr m) \<longleftrightarrow>
              recentSends r a (nowCheck env) < k)
     \<and> (\<exists>r'. sendAll a ts r = Some r' \<and>
          (\<forall>b pl env. lo \<le> nowCheck env \<and>
               (\<forall>(b', pl', e) \<in> set ts. nowRecord e \<le> nowCheck env \<and> nowCheck env - nowRecord e < 1000)
             \<longrightarrow> sendMessage a b pl env r' = (Inl (RateLimitExceeded a k), r')) \<and>
          (1 \<le> k \<longrightarrow>
             (\<forall>b pl env. lo \<le> nowCheck env \<and>
                 (\<forall>(b', pl', e) \<in> set ts. 1000 \<le> nowCheck env - nowRecord e)
               \<longrightarrow> (\<exists>m r''. sendMessage a b pl env r' = (Inr m, r'')))))"
proof (intro conjI)
  show "\<forall>b pl env. (\<exists>m. fst (sendMessage a b pl env r) = Inr m) \<longleftrightarrow>
              recentSends r a (nowCheck env) < k"
    using send_ok_iff[OF pol] by blast
next
  have "\<forall>c\<ge>lo. recentSends r a c + length ts \<le> k" using old len by simp
  from sendAll_succeeds[OF pol chr this] obtain r' where r': "sendAll a ts r = Some r'" by blast
  have A: "sendMessage a b pl env r' = (Inl (RateLimitExceeded a k), r')"
    if h: "lo \<le> nowCheck env \<and>
       (\<forall>(b', pl', e) \<in> set ts. nowRecord e \<le> nowCheck env \<and> nowCheck env - nowRecord e < 1000)"
    for b pl env
  proof -
    have 1: "\<forall>(b, pl, e) \<in> set ts. nowRecord e \<le> nowCheck env" using h by auto
    have 2: "filter (\<lambda>(b, pl, e). nowCheck env - nowRecord e < 1000) ts = ts"
      using h by (auto intro!: filter_True)
    from sendAll_recent[OF chr r' 1] have "policies r' a = Some p" "recentSends r' a (nowCheck env) = k"
      using pol old h len by (simp_all add: 2)
    then show ?thesis using send_fail[of r' a p k env b pl] pol(2) by simp
  qed
  have B: "\<exists>m r''. sendMessage a b pl env r' = (Inr m, r'')"
    if k: "1 \<le> k" and h: "lo \<le> nowCheck env \<and>
       (\<forall>(b', pl', e) \<in> set ts. 1000 \<le> nowCheck env - nowRecord e)"
    for b pl env
  proof -
    have 1: "\<forall>(b, pl, e) \<in> set ts. nowRecord e \<le> nowCheck env" using h by auto
    have 2: "filter (\<lambda>(b, pl, e). nowCheck env - nowRecord e < 1000) ts = []"
      using h by (auto simp: filter_empty_conv)
    from sendAll_recent[OF chr r' 1] have "policies r' a = Some p" "recentSends r' a (nowCheck env) = 0"
      using pol old h by (simp_all add: 2)
    then show ?thesis using send_ok[of r' a p k env b pl] pol(2) k by simp
  qed
  show "\<exists>r'. sendAll a ts r = Some r' \<and>
          (\<forall>b pl env. lo \<le> nowCheck env \<and>
               (\<forall>(b', pl', e) \<in> set ts. nowRecord e \<le> nowCheck env \<and> nowCheck env - nowRecord e < 1000)
             \<longrightarrow> sendMessage a b pl env r' = (Inl (RateLimitExceeded a k), r')) \<and>
          (1 \<le> k \<longrightarrow>
             (\<forall>b pl env. lo \<le> nowCheck env \<and>
                 (\<forall>(b', pl', e) \<in> set ts. 1000 \<le> nowCheck env - nowRecord e)
               \<longrightarrow> (\<exists>m r''. sendMessage a b pl env r' = (Inr m, r''))))"
    using r' A B by blast
qed


theorem rate_limit_window_witness:
  "policies (setPolicy ''S'' (emptyPolicy\<lparr>maxMessagesPerSecond := Some 2\<rparr>) (registerHandler ''A'' new_MessageRouter)) ''S''
      = Some (emptyPolicy\<lparr>maxMessagesPerSecond := Some 2\<rparr>)
   \<and> chronological 0
        [(''A'', ''1'', \<lparr>uuid = ''m1'', isoNow = ''t1'', nowCheck = 0, nowRecord = 0\<rparr>),
         (''A'', ''2'', \<lparr>uuid = ''m2'', isoNow = ''t2'', nowCheck = 10, nowRecord = 11\<rparr>)]
   \<and> (\<exists>r'. sendAll ''S''
        [(''A'', ''1'', \<lparr>uuid = ''m1'', isoNow = ''t1'', nowCheck = 0, nowRecord = 0\<rparr>),
         (''A'', ''2'', \<lparr>uuid = ''m2'', isoNow = ''t2'', nowCheck = 10, nowRecord = 11\<rparr>)]
        (setPolicy ''S'' (emptyPolicy\<lparr>maxMessagesPerSecond := Some 2\<rparr>) (registerHandler ''A'' new_MessageRouter))
          = Some r'
      \<and> sendMessage ''S'' ''A'' ''3'' \<lparr>uuid = ''m3'', isoNow = ''t3'', nowCheck = 20, nowRecord = 20\<rparr> r'
          = (Inl (RateLimitExceeded ''S'' 2), r')
      \<and> (\<exists>m r''. sendMessage ''S'' ''A'' ''4''
            \<lparr>uuid = ''m4'', isoNow = ''t4'', nowCheck = 1011, nowRecord = 1011\<rparr> r' = (Inr m, r'')))"
proof -
  let ?p = "emptyPolicy\<lparr>maxMessagesPerSecond := Some 2\<rparr>"
  let ?r = "setPolicy ''S'' ?p (registerHandler ''A'' new_MessageRouter)"
  let ?ts = "[(''A'', ''1'', \<lparr>uuid = ''m1'', isoNow = ''t1'', nowCheck = 0, nowRecord = 0\<rparr>),
         (''A'', ''2'', \<lparr>uuid = ''m2'', isoNow = ''t2'', nowCheck = 10, nowRecord = 11\<rparr>)]"
  have pol: "policies ?r ''S'' = Some ?p" by (simp add: setPolicy_def)
  have mx: "maxMessagesPerSecond ?p = Some 2" by simp
  have chr: "chronological 0 ?ts" by simp
  have len: "length ?ts = 2" by simp
  have old: "\<forall>c\<ge>0. recentSends ?r ''S'' c = 0"
    by (simp add: recentSends_def timestampsOf_def setPolicy_def registerHandler_def new_MessageRouter_def)
  from rate_limit_window[OF pol mx chr len old]
  obtain r' where r': "sendAll ''S'' ?ts ?r = Some r'"
    and A: "\<And>b pl env. 0 \<le> nowCheck env \<and>
               (\<forall>(b', pl', e) \<in> set ?ts. nowRecord e \<le> nowCheck env \<and> nowCheck env - nowRecord e < 1000)
             \<Longrightarrow> sendMessage ''S'' b pl env r' = (Inl (RateLimitExceeded ''S'' 2), r')"
    and B: "\<And>b pl env. 0 \<le> nowCheck env \<and>
                 (\<forall>(b', pl', e) \<in> set ?ts. 1000 \<le> nowCheck env - nowRecord e)
               \<Longrightarrow> (\<exists>m r''. sendMessage ''S'' b pl env r' = (Inr m, r''))"
    by auto
  have 3: "sendMessage ''S'' ''A'' ''3'' \<lparr>uuid = ''m3'', isoNow = ''t3'', nowCheck = 20, nowRecord = 20\<rparr> r'
          = (Inl (RateLimitExceeded ''S'' 2), r')"
    by (rule A) simp
  have 4: "\<exists>m r''. sendMessage ''S'' ''A'' ''4''
            \<lparr>uuid = ''m4'', isoNow = ''t4'', nowCheck = 1011, nowRecord = 1011\<rparr> r' = (Inr m, r'')"
    by (rule B) simp
  show ?thesis using pol chr r' 3 4 by blast
qed

text \<open>
  Claim C9 as stated fails for \<open>k = 0\<close>: the limit is then reached with no send at all,
  so the first send throws, and a send made long after any window has passed throws too.
\<close>

theorem rate_limit_zero_never_recovers:
  "fst (sendMessage ''S'' ''A'' ''x'' \<lparr>uuid = ''m1'', isoNow = ''t1'', nowCheck = 0, nowRecord = 0\<rparr>
         (setPolicy ''S'' (emptyPolicy\<lparr>maxMessagesPerSecond := Some 0\<rparr>) new_MessageRouter))
     = Inl (RateLimitExceeded ''S'' 0)
   \<and> fst (sendMessage ''S'' ''A'' ''x'' \<lparr>uuid = ''m2'', isoNow = ''t2'', nowCheck = 5000, nowRecord = 5000\<rparr>
         (setPolicy ''S'' (emptyPolicy\<lparr>maxMessagesPerSecond := Some 0\<rparr>) new_MessageRouter))
     = Inl (RateLimitExceeded ''S'' 0)"
  by (simp add: sendMessage_def checkRateLimit_def setPolicy_def new_MessageRouter_def
      timestampsOf_def emptyPolicy_def)

section \<open>Claim graph: results\<close>

lemma in_challengedIds:
  "i \<in> challengedIds all \<longleftrightarrow>
     (\<exists>c'\<in>set all. \<exists>l\<in>set (links c'). linkType l = challenges \<and> targetClaimId l = i)"
  by (auto simp: challengedIds_def)

text \<open>
  The two lists of \<^verbatim>\<open>summarize()\<close> with the test \<^verbatim>\<open>challengedIds.has(c.id)\<close> spelled out:
  some claim of the graph carries a \<^verbatim>\<open>challenges\<close> link whose target is \<open>c\<close>.
\<close>

lemma conflicts_summarize:
  "conflicts (summarize g) =
     map statement (filter (\<lambda>c. \<exists>c'\<in>set (listClaims g). \<exists>l\<in>set (links c').
             linkType l = challenges \<and> targetClaimId l = claimId c) (listClaims g))"
  by (simp add: summarize_def Let_def conflictClaims_def in_challengedIds)

lemma consensus_summarize:
  "consensus (summarize g) =
     map statement (filter (\<lambda>c. confidence c \<ge> 7/10 \<and>
         \<not> (\<exists>c'\<in>set (listClaims g). \<exists>l\<in>set (links c').
             linkType l = challenges \<and> targetClaimId l = claimId c)) (listClaims g))"
  by (simp add: summarize_def Let_def consensusClaims_def in_challengedIds)

text \<open>
  Claim C5, as amended. \<^verbatim>\<open>summarize()\<close> returns statements, not claims. A string is listed
  in \<^verbatim>\<open>conflicts\<close> iff it is the statement of a claim of the graph that some claim of
  the graph, that claim itself included, targets with a \<^verbatim>\<open>challenges\<close> link. A string
  is listed in \<^verbatim>\<open>consensus\<close> iff it is the statement of a claim whose confidence is at
  least 0.7 and that no \<^verbatim>\<open>challenges\<close> link targets. When no two claims with
  different ids have the same statement, no string is in both lists.
\<close>

theorem summarize_consensus_conflicts:
  "(x \<in> set (conflicts (summarize g)) \<longleftrightarrow>
      (\<exists>c\<in>set (listClaims g). statement c = x \<and>
         (\<exists>c'\<in>set (listClaims g). \<exists>l\<in>set (links c').
             linkType l = challenges \<and> targetClaimId l = claimId c)))
   \<and> (y \<in> set (consensus (summarize g)) \<longleftrightarrow>
      (\<exists>c\<in>set (listClaims g). statement c = y \<and> confidence c \<ge> 7/10 \<and>
         \<not> (\<exists>c'\<in>set (listClaims g). \<exists>l\<in>set (links c').
             linkType l = challenges \<and> targetClaimId l = claimId c)))
   \<and> ((\<forall>c\<in>set (listClaims g). \<forall>d\<in>set (listClaims g).
          statement c = statement d \<longrightarrow> claimId c = claimId d)
        \<longrightarrow> set (consensus (summarize g)) \<inter> set (conflicts (summarize g)) = {})"
proof (intro conjI impI)
  show "x \<in> set (conflicts (summarize g)) \<longleftrightarrow>
      (\<exists>c\<in>set (listClaims g). statement c = x \<and>
         (\<exists>c'\<in>set (listClaims g). \<exists>l\<in>set (links c').
             linkType l = challenges \<and> targetClaimId l = claimId c))"
    unfolding conflicts_summarize by auto
  show "y \<in> set (consensus (summarize g)) \<longleftrightarrow>
      (\<exists>c\<in>set (listClaims g). statement c = y \<and> confidence c \<ge> 7/10 \<and>
         \<not> (\<exists>c'\<in>set (listClaims g). \<exists>l\<in>set (links c').
             linkType l = challenges \<and> targetClaimId l = claimId c))"
    unfolding consensus_summarize by auto
  assume u: "\<forall>c\<in>set (listClaims g). \<forall>d\<in>set (listClaims g).
          statement c = statement d \<longrightarrow> claimId c = claimId d"
  have False
    if a: "z \<in> set (consensus (summarize g))" and b: "z \<in> set (conflicts (summarize g))" for z
  proof -
    from a obtain c where c: "c \<in> set (listClaims g)" "statement c = z"
      "\<not> (\<exists>c'\<in>set (listClaims g). \<exists>l\<in>set (links c').
             linkType l = challenges \<and> targetClaimId l = claimId c)"
      unfolding consensus_summarize by auto
    from b obtain d where d: "d \<in> set (listClaims g)" "statement d = z"
      "\<exists>c'\<in>set (listClaims g). \<exists>l\<in>set (links c').
             linkType l = challenges \<and> targetClaimId l = claimId d"
      unfolding conflicts_summarize by auto
    have "statement c = statement d" using c(2) d(2) by simp
    with bspec [OF bspec [OF u c(1)] d(1)] have "claimId c = claimId d" by (rule mp)
    with c(3) d(3) show False by simp
  qed
  then show "set (consensus (summarize g)) \<inter> set (conflicts (summarize g)) = {}" by blast
qed

theorem summarize_consensus_conflicts_witness:
  "conflicts (summarize
         \<lparr>claims =
            [(''e1'', \<lparr>claimId = ''e1'', statement = ''E1'', evidence = [], confidence = 1/2,
                author = ''A'', links = [], claimCreatedAt = ''t0''\<rparr>),
             (''e2'', \<lparr>claimId = ''e2'', statement = ''E2'', evidence = [], confidence = 9/10,
                author = ''B'', links = [\<lparr>targetClaimId = ''e1'', linkType = challenges\<rparr>],
                claimCreatedAt = ''t1''\<rparr>)],
          claimEvents = []\<rparr>) = [''E1'']
   \<and> ''E2'' \<in> set (consensus (summarize
         \<lparr>claims =
            [(''e1'', \<lparr>claimId = ''e1'', statement = ''E1'', evidence = [], confidence = 1/2,
                author = ''A'', links = [], claimCreatedAt = ''t0''\<rparr>),
             (''e2'', \<lparr>claimId = ''e2'', statement = ''E2'', evidence = [], confidence = 9/10,
                author = ''B'', links = [\<lparr>targetClaimId = ''e1'', linkType = challenges\<rparr>],
                claimCreatedAt = ''t1''\<rparr>)],
          claimEvents = []\<rparr>))
   \<and> ''E1'' \<notin> set (consensus (summarize
         \<lparr>claims =
            [(''e1'', \<lparr>claimId = ''e1'', statement = ''E1'', evidence = [], confidence = 1/2,
                author = ''A'', links = [], claimCreatedAt = ''t0''\<rparr>),
             (''e2'', \<lparr>claimId = ''e2'', statement = ''E2'', evidence = [], confidence = 9/10,
                author = ''B'', links = [\<lparr>targetClaimId = ''e1'', linkType = challenges\<rparr>],
                claimCreatedAt = ''t1''\<rparr>)],
          claimEvents = []\<rparr>))"
proof -
  let ?e1 = "\<lparr>claimId = ''e1'', statement = ''E1'', evidence = [], confidence = 1/2, author = ''A'',
      links = [], claimCreatedAt = ''t0''\<rparr>"
  let ?e2 = "\<lparr>claimId = ''e2'', statement = ''E2'', evidence = [], confidence = 9/10,
                author = ''B'', links = [\<lparr>targetClaimId = ''e1'', linkType = challenges\<rparr>],
                claimCreatedAt = ''t1''\<rparr>"
  let ?g = "\<lparr>claims = [(''e1'', ?e1), (''e2'', ?e2)], claimEvents = []\<rparr>"
  have all: "listClaims ?g = [?e1, ?e2]" by (simp add: listClaims_def)
  have u: "\<forall>c\<in>set (listClaims ?g). \<forall>d\<in>set (listClaims ?g).
          statement c = statement d \<longrightarrow> claimId c = claimId d"
    unfolding all by simp
  have cf: "conflicts (summarize ?g) = [''E1'']"
    by (simp add: summarize_def conflictClaims_def listClaims_def challengedIds_def Let_def)
  have ok: "confidence ?e2 \<ge> 7/10" by simp
  have nl: "\<not> (\<exists>c'\<in>set (listClaims ?g). \<exists>l\<in>set (links c').
             linkType l = challenges \<and> targetClaimId l = claimId ?e2)"
    unfolding all by simp
  have m2: "?e2 \<in> set (listClaims ?g)" unfolding all by simp
  have st: "statement ?e2 = ''E2''" by simp
  from summarize_consensus_conflicts [of _ ?g "''E2''"] m2 st ok nl
  have in2: "''E2'' \<in> set (consensus (summarize ?g))" by blast
  from summarize_consensus_conflicts [of "''E1''" ?g "''E1''"] u
  have "set (consensus (summarize ?g)) \<inter> set (conflicts (summarize ?g)) = {}" by blast
  with cf have out1: "''E1'' \<notin> set (consensus (summarize ?g))" by auto
  from cf in2 out1 show ?thesis by blast
qed

text \<open>
  Claim C5 as stated fails in two ways. Two claims may carry the same statement: with
  \<open>c1\<close> (confidence 0.9) challenging \<open>c2\<close>, both stating \<open>X\<close>, the string \<open>X\<close> is
  listed in \<^verbatim>\<open>consensus\<close> for \<open>c1\<close> and in \<^verbatim>\<open>conflicts\<close> for \<open>c2\<close>, so the statement
  of \<open>c1\<close> is in \<^verbatim>\<open>conflicts\<close> although no link targets \<open>c1\<close>, and it is in both
  lists. And a claim may challenge itself (\<^verbatim>\<open>challengeClaim(id, id)\<close> is accepted): it is
  then listed in \<^verbatim>\<open>conflicts\<close> although no other claim links to it.
\<close>

theorem shared_statement_and_self_challenge:
  "(case challengeClaim ''c2'' ''c1''
           (snd (addClaim ''X'' ''B'' [] (5/10) ''c2'' ''t1''
             (snd (addClaim ''X'' ''A'' [] (9/10) ''c1'' ''t0'' new_ClaimGraph)))) of
      Inl e \<Rightarrow> False
    | Inr g \<Rightarrow>
        map (\<lambda>c. (claimId c, statement c, confidence c, links c)) (listClaims g) =
          [(''c1'', ''X'', 9/10, [\<lparr>targetClaimId = ''c2'', linkType = challenges\<rparr>]),
           (''c2'', ''X'', 4/10, [])]
        \<and> consensus (summarize g) = [''X'']
        \<and> conflicts (summarize g) = [''X''])
   \<and> (case challengeClaim ''c1'' ''c1''
           (snd (addClaim ''Y'' ''A'' [] (6/10) ''c1'' ''t0'' new_ClaimGraph)) of
      Inl e \<Rightarrow> False
    | Inr g \<Rightarrow>
        map (\<lambda>c. (claimId c, statement c, confidence c, links c)) (listClaims g) =
          [(''c1'', ''Y'', 5/10, [\<lparr>targetClaimId = ''c1'', linkType = challenges\<rparr>])]
        \<and> consensus (summarize g) = []
        \<and> conflicts (summarize g) = [''Y''])"
  by (simp add: challengeClaim_def addLink_def addClaim_def new_ClaimGraph_def summarize_def
      conflictClaims_def consensusClaims_def listClaims_def challengedIds_def Let_def)

lemma addLink_keeps_confidence:
  "map_of (claims g) i = Some c \<Longrightarrow> addLink t s ty g = Inr g1 \<Longrightarrow>
   \<exists>c1. map_of (claims g1) i = Some c1 \<and> confidence c1 = confidence c"
  by (auto simp: addLink_def update_conv' split: option.splits)

lemma apply_claim_op_keeps_range:
  assumes "map_of (claims g) i = Some c" "0 \<le> confidence c" "confidence c \<le> 1"
  shows "\<exists>c'. map_of (claims (apply_claim_op op g)) i = Some c' \<and> 0 \<le> confidence c' \<and> confidence c' \<le> 1"
proof (cases op)
  case (ChallengeOp t s)
  show ?thesis
  proof (cases "addLink t s challenges g")
    case (Inl e)
    then show ?thesis using assms by (simp add: ChallengeOp challengeClaim_def)
  next
    case (Inr g1)
    from addLink_keeps_confidence[OF assms(1) Inr] obtain c1 where "map_of (claims g1) i = Some c1" "confidence c1 = confidence c" by blast
    then show ?thesis using assms Inr
      by (auto simp: ChallengeOp challengeClaim_def Let_def update_conv' split: option.splits)
  qed
next
  case (SupportOp t s)
  show ?thesis
  proof (cases "addLink t s supports g")
    case (Inl e)
    then show ?thesis using assms by (simp add: SupportOp supportClaim_def)
  next
    case (Inr g1)
    from addLink_keeps_confidence[OF assms(1) Inr] obtain c1 where "map_of (claims g1) i = Some c1" "confidence c1 = confidence c" by blast
    then show ?thesis using assms Inr
      by (auto simp: SupportOp supportClaim_def Let_def update_conv' split: option.splits)
  qed
qed

text \<open>
  Claim C6, as amended. For every claim of the graph whose confidence lies within [0,1],
  after any series of \<^verbatim>\<open>challengeClaim\<close>/\<^verbatim>\<open>supportClaim\<close> calls (on any targets, failing
  ones included) the claim is still in the graph and its confidence lies within [0,1].
\<close>

theorem confidence_stays_in_range:
  "map_of (claims g) i = Some c \<Longrightarrow> 0 \<le> confidence c \<Longrightarrow> confidence c \<le> 1 \<Longrightarrow>
   \<exists>c'. getClaim i (apply_claim_ops ops g) = Some c' \<and> 0 \<le> confidence c' \<and> confidence c' \<le> 1"
proof (induction ops arbitrary: g c)
  case Nil
  then show ?case by (simp add: apply_claim_ops_def getClaim_def)
next
  case (Cons op ops)
  from apply_claim_op_keeps_range[OF Cons.prems, of op] obtain c1 where
    "map_of (claims (apply_claim_op op g)) i = Some c1" "0 \<le> confidence c1" "confidence c1 \<le> 1" by blast
  from Cons.IH[OF this] show ?case by (simp add: apply_claim_ops_def)
qed

theorem confidence_stays_in_range_witness:
  "map_of (claims (snd (addClaim ''Y'' ''B'' [] (1/2) ''c2'' ''t1''
             (snd (addClaim ''X'' ''A'' [] (1/20) ''c1'' ''t0'' new_ClaimGraph))))) ''c1''
     = Some \<lparr>claimId = ''c1'', statement = ''X'', evidence = [], confidence = 1/20,
              author = ''A'', links = [], claimCreatedAt = ''t0''\<rparr>
   \<and> (\<exists>c'. getClaim ''c1''
         (apply_claim_ops [ChallengeOp ''c1'' ''c2'', SupportOp ''c1'' ''nobody'']
           (snd (addClaim ''Y'' ''B'' [] (1/2) ''c2'' ''t1''
             (snd (addClaim ''X'' ''A'' [] (1/20) ''c1'' ''t0'' new_ClaimGraph))))) = Some c'
        \<and> 0 \<le> confidence c' \<and> confidence c' \<le> 1)"
proof -
  let ?c = "\<lparr>claimId = ''c1'', statement = ''X'', evidence = [], confidence = 1/20,
              author = ''A'', links = [], claimCreatedAt = ''t0''\<rparr>"
  let ?g = "snd (addClaim ''Y'' ''B'' [] (1/2) ''c2'' ''t1''
             (snd (addClaim ''X'' ''A'' [] (1/20) ''c1'' ''t0'' new_ClaimGraph)))"
  have m: "map_of (claims ?g) ''c1'' = Some ?c"
    by (simp add: addClaim_def new_ClaimGraph_def Let_def)
  have lo: "0 \<le> confidence ?c" and hi: "confidence ?c \<le> 1" by simp_all
  from confidence_stays_in_range [OF m lo hi] m show ?thesis by blast
qed

text \<open>
  Claim C6 as stated covers every claim of the graph, but \<^verbatim>\<open>addClaim\<close> stores the
  confidence it is given unchecked: a claim added with confidence 1.5 has confidence 1.4
  after one challenge.
\<close>

theorem unchecked_confidence_exceeds_one:
  "(case challengeClaim ''c1'' ''c2''
           (snd (addClaim ''Y'' ''B'' [] (1/2) ''c2'' ''t1''
             (snd (addClaim ''X'' ''A'' [] (3/2) ''c1'' ''t0'' new_ClaimGraph)))) of
      Inl e \<Rightarrow> False
    | Inr g \<Rightarrow> map_option confidence (getClaim ''c1'' g) = Some (14/10))"
  by (simp add: challengeClaim_def addLink_def addClaim_def new_ClaimGraph_def getClaim_def Let_def)

section \<open>Job scheduler: results\<close>

lemma updJob_fields [simp]:
  "queue (updJob j f s) = queue s" "running (updJob j f s) = running s"
  "allJobs (updJob j f s) = allJobs s" "maxParallel (updJob j f s) = maxParallel s"
  "paused (updJob j f s) = paused s" "promises (updJob j f s) = promises s"
  "bodies (updJob j f s) = bodies s" "schedEvents (updJob j f s) = schedEvents s"
  "dom (heap (updJob j f s)) = dom (heap s)"
  "k \<noteq> j \<Longrightarrow> heap (updJob j f s) k = heap s k"
  "heap (updJob j f s) j = map_option f (heap s j)"
  by (auto simp: updJob_def split: option.splits)

lemma setStatus_fields [simp]:
  "queue (setStatus j st s) = queue s" "running (setStatus j st s) = running s"
  "allJobs (setStatus j st s) = allJobs s" "maxParallel (setStatus j st s) = maxParallel s"
  "paused (setStatus j st s) = paused s" "promises (setStatus j st s) = promises s"
  "bodies (setStatus j st s) = bodies s" "schedEvents (setStatus j st s) = schedEvents s"
  "dom (heap (setStatus j st s)) = dom (heap s)"
  "k \<noteq> j \<Longrightarrow> heap (setStatus j st s) k = heap s k"
  "heap (setStatus j st s) j = map_option (\<lambda>x. x\<lparr>status := st\<rparr>) (heap s j)"
  by (simp_all add: setStatus_def)

lemma statusOf_setStatus [simp]:
  "statusOf (setStatus j st s) k = (if k = j then map_option (\<lambda>_. st) (statusOf s j) else statusOf s k)"
  by (auto simp: statusOf_def setStatus_def updJob_def split: option.splits)

lemma statusOf_updJob_other:
  "(\<And>x. status (f x) = status x) \<Longrightarrow> statusOf (updJob j f s) k = statusOf s k"
  by (auto simp: statusOf_def updJob_def split: option.splits)

lemma emit_fields [simp]:
  "queue (emit e s) = queue s" "running (emit e s) = running s"
  "allJobs (emit e s) = allJobs s" "maxParallel (emit e s) = maxParallel s"
  "paused (emit e s) = paused s" "promises (emit e s) = promises s"
  "bodies (emit e s) = bodies s" "heap (emit e s) = heap s"
  "statusOf (emit e s) = statusOf s"
  by (auto simp: emit_def statusOf_def)

lemma settle_fields [simp]:
  "queue (settle j p s) = queue s" "running (settle j p s) = running s"
  "allJobs (settle j p s) = allJobs s" "maxParallel (settle j p s) = maxParallel s"
  "paused (settle j p s) = paused s" "heap (settle j p s) = heap s"
  "bodies (settle j p s) = bodies s" "schedEvents (settle j p s) = schedEvents s"
  "statusOf (settle j p s) = statusOf s"
  "promises (settle j p s) k =
     (if k = j \<and> promises s j = Some Unsettled then Some p else promises s k)"
  by (auto simp: settle_def statusOf_def split: option.splits promise.splits)

lemma cancelItem_fields [simp]:
  "queue (cancelItem i item s) = queue s" "running (cancelItem i item s) = running s"
  "allJobs (cancelItem i item s) = allJobs s" "maxParallel (cancelItem i item s) = maxParallel s"
  "paused (cancelItem i item s) = paused s" "bodies (cancelItem i item s) = bodies s"
  "dom (heap (cancelItem i item s)) = dom (heap s)"
  "k \<noteq> job item \<Longrightarrow> heap (cancelItem i item s) k = heap s k"
  "statusOf (cancelItem i item s) k =
     (if k = job item then map_option (\<lambda>_. Cancelled) (statusOf s k) else statusOf s k)"
  "promises (cancelItem i item s) k =
     (if k = job item \<and> promises s k = Some Unsettled then Some (Rejected (cancelMessage i))
      else promises s k)"
  by (auto simp: cancelItem_def Let_def)

lemma startJob_fields [simp]:
  "queue (startJob item s) = queue s"
  "running (startJob item s) = AList.update (job item) item (running s)"
  "allJobs (startJob item s) = allJobs s" "maxParallel (startJob item s) = maxParallel s"
  "paused (startJob item s) = paused s" "promises (startJob item s) = promises s"
  "bodies (startJob item s) = (bodies s)(job item \<mapsto> (Executing, item))"
  "dom (heap (startJob item s)) = dom (heap s)"
  "k \<noteq> job item \<Longrightarrow> heap (startJob item s) k = heap s k"
  by (auto simp: startJob_def Let_def)

lemma statusOf_startJob [simp]:
  "statusOf (startJob item s) k =
     (if k = job item then map_option (\<lambda>_. Running) (statusOf s k) else statusOf s k)"
proof -
  have h: "statusOf (startJob item s) k = statusOf (setStatus (job item) Running s) k"
    by (simp add: startJob_def statusOf_def Let_def)
  show ?thesis unfolding h by auto
qed

lemma update_new_key: "k \<notin> fst ` set al \<Longrightarrow> AList.update k v al = al @ [(k, v)]"
  by (induction al) auto

lemma statusOf_upd [simp]:
  "statusOf (s\<lparr>queue := a\<rparr>) = statusOf s"
  "statusOf (s\<lparr>running := b\<rparr>) = statusOf s"
  "statusOf (s\<lparr>bodies := c\<rparr>) = statusOf s"
  "statusOf (s\<lparr>paused := d\<rparr>) = statusOf s"
  by (auto simp: statusOf_def)

lemma drainIteration_unfold:
  assumes "queue s = q # qs" "job q \<notin> fst ` set (running s)"
  shows "queue (drainIteration s) = qs"
    "running (drainIteration s) = running s @ [(job q, q)]"
    "maxParallel (drainIteration s) = maxParallel s"
    "bodies (drainIteration s) = (bodies s)(job q \<mapsto> (Executing, q))"
    "dom (heap (drainIteration s)) = dom (heap s)"
    "promises (drainIteration s) = promises s"
    "\<And>k. statusOf (drainIteration s) k =
       (if k = job q then map_option (\<lambda>_. Running) (statusOf s k) else statusOf s k)"
    "\<And>k. k \<noteq> job q \<Longrightarrow> heap (drainIteration s) k = heap s k"
  using assms by (simp_all add: drainIteration_def update_new_key)

lemma inv_disjoint:
  assumes "schedInv n s" "q \<in> set (queue s)"
  shows "job q \<notin> fst ` set (running s)"
proof
  assume "job q \<in> fst ` set (running s)"
  then obtain item where "(job q, item) \<in> set (running s)" by auto
  with assms(1) have "bodies s (job q) \<noteq> None" by (auto simp: schedInv_def rInv_def)
  moreover from assms have "bodies s (job q) = None" by (simp add: schedInv_def qInv_def)
  ultimately show False by simp
qed

lemma inv_drainIteration:
  assumes "schedInv n s" "drainCond s"
  shows "schedInv n (drainIteration s)"
proof -
  from assms(2) obtain q qs where q: "queue s = q # qs" and lt: "length (running s) < maxParallel s"
    by (auto simp: drainCond_def neq_Nil_conv)
  have nk: "job q \<notin> fst ` set (running s)"
    using inv_disjoint[OF assms(1), of q] q by simp
  note u = drainIteration_unfold[OF q nk]
  from assms(1) have qi: "qInv s" and ri: "rInv n s" and bi: "bInv s" by (simp_all add: schedInv_def)
  have "job q \<notin> job ` set qs" using qi q by (simp add: qInv_def)
  then have dq: "\<forall>x\<in>set qs. job x \<noteq> job q" by (metis imageI)
  have "qInv (drainIteration s)"
    using qi dq unfolding qInv_def u q by auto
  moreover have "rInv n (drainIteration s)"
    using ri qi lt nk unfolding rInv_def qInv_def u q by auto
  moreover have "bInv (drainIteration s)"
    using bi qi unfolding bInv_def qInv_def u q by (auto split: if_splits)
  ultimately show ?thesis by (simp add: schedInv_def)
qed

lemma inv_drainLoop: "schedInv n s \<Longrightarrow> schedInv n (drainLoop s)"
proof (induction s rule: drainLoop.induct)
  case (1 s)
  show ?case
  proof (cases "drainCond s")
    case True
    with 1 inv_drainIteration show ?thesis by (simp add: drainLoop.simps[of s])
  next
    case False
    with 1 show ?thesis by (simp add: drainLoop.simps[of s])
  qed
qed

lemma inv_drain: "schedInv n s \<Longrightarrow> schedInv n (drain s)"
  by (simp add: drain_def inv_drainLoop)

lemma enqueuePush_unfold:
  "queue (enqueuePush jid a t c now s) = queue s @ [\<lparr>job = jid, correlationId = c\<rparr>]"
  "running (enqueuePush jid a t c now s) = running s"
  "maxParallel (enqueuePush jid a t c now s) = maxParallel s"
  "bodies (enqueuePush jid a t c now s) = bodies s"
  "dom (heap (enqueuePush jid a t c now s)) = insert jid (dom (heap s))"
  "promises (enqueuePush jid a t c now s) = (promises s)(jid \<mapsto> Unsettled)"
  "\<And>k. statusOf (enqueuePush jid a t c now s) k = (if k = jid then Some Pending else statusOf s k)"
  "\<And>k. k \<noteq> jid \<Longrightarrow> heap (enqueuePush jid a t c now s) k = heap s k"
  by (auto simp: enqueuePush_def Let_def statusOf_def)

lemma inv_enqueuePush:
  assumes "schedInv n s" "jid \<notin> dom (heap s)"
  shows "schedInv n (enqueuePush jid a t c now s)"
proof -
  note u = enqueuePush_unfold
  from assms(1) have qi: "qInv s" and ri: "rInv n s" and bi: "bInv s" by (simp_all add: schedInv_def)
  have nb: "bodies s jid = None" using bi assms(2) by (cases "bodies s jid") (auto simp: bInv_def)
  have nq: "jid \<notin> job ` set (queue s)" using qi assms(2) by (auto simp: qInv_def)
  have "qInv (enqueuePush jid a t c now s)"
    using qi nb nq assms(2) unfolding qInv_def u by auto
  moreover have "rInv n (enqueuePush jid a t c now s)"
    using ri nb unfolding rInv_def u by auto
  moreover have "bInv (enqueuePush jid a t c now s)"
    using bi unfolding bInv_def u by auto
  ultimately show ?thesis by (simp add: schedInv_def)
qed

lemma inv_pause: "schedInv n s \<Longrightarrow> schedInv n (pause s)"
  by (simp add: schedInv_def qInv_def rInv_def bInv_def pause_def)

lemma inv_resumeFlag: "schedInv n s \<Longrightarrow> schedInv n (resumeFlag s)"
  by (simp add: schedInv_def qInv_def rInv_def bInv_def resumeFlag_def)

lemma findIndex_None: "findIndex P xs = None \<longleftrightarrow> (\<forall>x\<in>set xs. \<not> P x)"
  by (induction xs) auto

lemma findIndex_Some: "findIndex P xs = Some i \<Longrightarrow> i < length xs \<and> P (xs ! i)"
  by (induction xs arbitrary: i) (auto split: if_splits)

lemma remove_nth_set: "set (take i xs @ drop (Suc i) xs) \<subseteq> set xs"
  by (auto dest: in_set_takeD in_set_dropD)

lemma remove_nth_distinct:
  assumes "distinct (map f xs)" "i < length xs"
  shows "distinct (map f (take i xs @ drop (Suc i) xs)) \<and> f (xs ! i) \<notin> f ` set (take i xs @ drop (Suc i) xs)"
proof -
  have "xs = take i xs @ xs ! i # drop (Suc i) xs" using assms(2) by (rule id_take_nth_drop)
  then have "distinct (map f (take i xs @ xs ! i # drop (Suc i) xs))" using assms(1) by simp
  then show ?thesis by auto
qed

lemma inv_cancel_pending:
  assumes "schedInv n s" "set q' \<subseteq> set (queue s)" "distinct (map job q')"
    "job item \<notin> job ` set q'" "job item \<notin> fst ` set (running s)"
  shows "schedInv n (cancelItem jid item (s\<lparr>queue := q'\<rparr>))"
proof -
  from assms(1) have qi: "qInv s" and ri: "rInv n s" and bi: "bInv s" by (simp_all add: schedInv_def)
  have dq: "\<forall>x\<in>set q'. job x \<noteq> job item" using assms(4) by (metis imageI)
  have "qInv (cancelItem jid item (s\<lparr>queue := q'\<rparr>))"
    using qi assms(2,3) dq unfolding qInv_def by auto
  moreover have "\<forall>it. (job item, it) \<notin> set (running s)" using assms(5) by force
  then have "rInv n (cancelItem jid item (s\<lparr>queue := q'\<rparr>))"
    using ri unfolding rInv_def by auto
  moreover have "bInv (cancelItem jid item (s\<lparr>queue := q'\<rparr>))"
    using bi unfolding bInv_def by auto
  ultimately show ?thesis by (simp add: schedInv_def)
qed

lemma inv_cancel:
  assumes "schedInv n s"
  shows "schedInv n (snd (cancel jid s))"
proof (cases "findIndex (\<lambda>q. job q = jid) (queue s)")
  case (Some idx)
  let ?item = "queue s ! idx"
  let ?q' = "take idx (queue s) @ drop (Suc idx) (queue s)"
  from findIndex_Some[OF Some] have idx: "idx < length (queue s)" and j: "job ?item = jid" by auto
  from assms have qi: "qInv s" by (simp add: schedInv_def)
  have c: "snd (cancel jid s) = cancelItem jid ?item (s\<lparr>queue := ?q'\<rparr>)"
    by (simp add: cancel_def Some Let_def)
  have sub: "set ?q' \<subseteq> set (queue s)" by (rule remove_nth_set)
  from remove_nth_distinct[of job "queue s" idx] qi idx
  have d: "distinct (map job ?q')" and nj: "job ?item \<notin> job ` set ?q'" by (auto simp: qInv_def)
  have "?item \<in> set (queue s)" using idx by simp
  from inv_disjoint[OF assms this] have nr: "job ?item \<notin> fst ` set (running s)" .
  show ?thesis unfolding c using assms sub d nj nr by (rule inv_cancel_pending)
next
  case None
  show ?thesis
  proof (cases "map_of (running s) jid")
    case n2: None
    then show ?thesis using assms None by (simp add: cancel_def)
  next
    case (Some item)
    let ?s' = "emit (JobCancelled jid (correlationId item)) (setStatus (job item) Cancelled s)"
    have c: "snd (cancel jid s) = ?s'" by (simp add: cancel_def None Some Let_def)
    from assms have qi: "qInv s" and ri: "rInv n s" and bi: "bInv s" by (simp_all add: schedInv_def)
    have mem: "(jid, item) \<in> set (running s)" using Some by (rule map_of_SomeD)
    then have j: "job item = jid" using ri by (auto simp: rInv_def)
    have nq: "\<forall>q\<in>set (queue s). job q \<noteq> jid" using None by (auto simp: findIndex_None)
    have "qInv ?s'"
      using qi nq unfolding qInv_def by (auto simp: j)
    moreover have "rInv n ?s'"
      using ri unfolding rInv_def by (auto simp: j)
    moreover have "bInv ?s'"
      using bi unfolding bInv_def by auto
    ultimately show ?thesis by (simp add: c schedInv_def)
  qed
qed

lemma fold_cancelItem_fields [simp]:
  "queue (fold (\<lambda>x. cancelItem (f x) (g x)) xs s) = queue s"
  "running (fold (\<lambda>x. cancelItem (f x) (g x)) xs s) = running s"
  "maxParallel (fold (\<lambda>x. cancelItem (f x) (g x)) xs s) = maxParallel s"
  "bodies (fold (\<lambda>x. cancelItem (f x) (g x)) xs s) = bodies s"
  "paused (fold (\<lambda>x. cancelItem (f x) (g x)) xs s) = paused s"
  "allJobs (fold (\<lambda>x. cancelItem (f x) (g x)) xs s) = allJobs s"
  "dom (heap (fold (\<lambda>x. cancelItem (f x) (g x)) xs s)) = dom (heap s)"
  by (induction xs arbitrary: s) auto

lemma fold_cancelItem_status:
  "statusOf (fold (\<lambda>x. cancelItem (f x) (g x)) xs s) k =
     (if k \<in> (\<lambda>x. job (g x)) ` set xs then map_option (\<lambda>_. Cancelled) (statusOf s k) else statusOf s k)"
  by (induction xs arbitrary: s) (auto simp: option.map_comp comp_def)

lemma fold_cancelItem_heap_other:
  "k \<notin> (\<lambda>x. job (g x)) ` set xs \<Longrightarrow> heap (fold (\<lambda>x. cancelItem (f x) (g x)) xs s) k = heap s k"
  by (induction xs arbitrary: s) auto

lemma fold_cancelItem_promise_other:
  "k \<notin> (\<lambda>x. job (g x)) ` set xs \<Longrightarrow> promises (fold (\<lambda>x. cancelItem (f x) (g x)) xs s) k = promises s k"
  by (induction xs arbitrary: s) auto

lemma fold_cancelItem_promise_settled:
  "promises s k \<noteq> Some Unsettled \<Longrightarrow> promises (fold (\<lambda>x. cancelItem (f x) (g x)) xs s) k = promises s k"
  by (induction xs arbitrary: s) auto

lemma fold_cancelItem_promise_rejected:
  "k \<in> (\<lambda>x. job (g x)) ` set xs \<Longrightarrow> promises s k = Some Unsettled \<Longrightarrow>
   (\<forall>x\<in>set xs. job (g x) = k \<longrightarrow> f x = k) \<Longrightarrow>
   promises (fold (\<lambda>x. cancelItem (f x) (g x)) xs s) k = Some (Rejected (cancelMessage k))"
proof (induction xs arbitrary: s)
  case Nil
  then show ?case by simp
next
  case (Cons x xs)
  show ?case
  proof (cases "job (g x) = k")
    case True
    then have fx: "f x = k" using Cons.prems(3) by simp
    have "promises (cancelItem (f x) (g x) s) k = Some (Rejected (cancelMessage k))"
      using True fx Cons.prems(2) by simp
    then show ?thesis
      using fold_cancelItem_promise_settled[of "cancelItem (f x) (g x) s" k f g xs] by simp
  next
    case False
    then have "promises (cancelItem (f x) (g x) s) k = Some Unsettled" using Cons.prems(2) by auto
    moreover have "k \<in> (\<lambda>x. job (g x)) ` set xs" using Cons.prems(1) False by auto
    ultimately show ?thesis using Cons.IH[of "cancelItem (f x) (g x) s"] Cons.prems(3) by simp
  qed
qed

lemma cancelAll_alt:
  "cancelAll s =
     (fold (\<lambda>x. cancelItem (fst x) (snd x)) (running s)
        ((fold (\<lambda>x. cancelItem (job x) x) (queue s) s)\<lparr>queue := []\<rparr>))\<lparr>running := []\<rparr>"
  by (simp add: cancelAll_def Let_def case_prod_unfold)

lemma cancelAll_fields:
  "queue (cancelAll s) = []" "running (cancelAll s) = []"
  "maxParallel (cancelAll s) = maxParallel s" "bodies (cancelAll s) = bodies s"
  "paused (cancelAll s) = paused s" "allJobs (cancelAll s) = allJobs s"
  "dom (heap (cancelAll s)) = dom (heap s)"
  by (simp_all add: cancelAll_alt)

lemma inv_cancelAll: "schedInv n s \<Longrightarrow> schedInv n (cancelAll s)"
  by (auto simp: schedInv_def qInv_def rInv_def bInv_def cancelAll_fields)

lemma onFulfilled_fields:
  "queue (onFulfilled item res s) = queue s" "running (onFulfilled item res s) = running s"
  "maxParallel (onFulfilled item res s) = maxParallel s" "bodies (onFulfilled item res s) = bodies s"
  "paused (onFulfilled item res s) = paused s" "allJobs (onFulfilled item res s) = allJobs s"
  "dom (heap (onFulfilled item res s)) = dom (heap s)"
  "\<And>k. k \<noteq> job item \<Longrightarrow> heap (onFulfilled item res s) k = heap s k"
  "\<And>k. promises (onFulfilled item res s) k =
     (if k = job item \<and> promises s k = Some Unsettled then Some (Resolved res) else promises s k)"
  "\<And>k. statusOf (onFulfilled item res s) k =
     (if k = job item then map_option (\<lambda>_. Completed) (statusOf s k) else statusOf s k)"
  by (auto simp: onFulfilled_def Let_def statusOf_updJob_other)

lemma onRejected_fields:
  "queue (onRejected item err s) = queue s" "running (onRejected item err s) = running s"
  "maxParallel (onRejected item err s) = maxParallel s" "bodies (onRejected item err s) = bodies s"
  "paused (onRejected item err s) = paused s" "allJobs (onRejected item err s) = allJobs s"
  "dom (heap (onRejected item err s)) = dom (heap s)"
  "\<And>k. k \<noteq> job item \<Longrightarrow> heap (onRejected item err s) k = heap s k"
  "\<And>k. promises (onRejected item err s) k =
     (if k = job item \<and> promises s k = Some Unsettled then Some (Rejected err) else promises s k)"
  "\<And>k. statusOf (onRejected item err s) k =
     (if k = job item then map_option (\<lambda>_. Failed) (statusOf s k) else statusOf s k)"
  by (auto simp: onRejected_def Let_def statusOf_updJob_other)

lemma inv_settled:
  assumes "schedInv n s" "bodies s jid = Some (Executing, item)"
    and f: "queue s' = queue s" "running s' = running s" "maxParallel s' = maxParallel s"
      "bodies s' = (bodies s)(jid \<mapsto> (Settling, item))" "dom (heap s') = dom (heap s)"
      "\<And>k. k \<noteq> jid \<Longrightarrow> promises s' k = promises s k"
      "\<And>k. k \<noteq> jid \<Longrightarrow> statusOf s' k = statusOf s k"
  shows "schedInv n s'"
proof -
  from assms(1) have qi: "qInv s" and ri: "rInv n s" and bi: "bInv s" by (simp_all add: schedInv_def)
  have nq: "\<forall>q\<in>set (queue s). job q \<noteq> jid" using qi assms(2) by (auto simp: qInv_def)
  have "qInv s'"
    using qi nq unfolding qInv_def f(1,4,5) by (auto simp: f(6,7))
  moreover have "rInv n s'"
    using ri unfolding rInv_def f(2,3,4) by (auto simp: f(6))
  moreover have "bInv s'"
    using bi assms(2) unfolding bInv_def f(4,5) by (auto split: if_splits)
  ultimately show ?thesis by (simp add: schedInv_def)
qed

lemma inv_onFulfilled:
  assumes "schedInv n s" "bodies s jid = Some (Executing, item)"
  shows "schedInv n (onFulfilled item res (s\<lparr>bodies := (bodies s)(jid \<mapsto> (Settling, item))\<rparr>))"
proof -
  have j: "job item = jid" using assms by (auto simp: schedInv_def bInv_def)
  show ?thesis
    by (rule inv_settled[OF assms]) (simp_all add: onFulfilled_fields j)
qed

lemma inv_onRejected:
  assumes "schedInv n s" "bodies s jid = Some (Executing, item)"
  shows "schedInv n (onRejected item err (s\<lparr>bodies := (bodies s)(jid \<mapsto> (Settling, item))\<rparr>))"
proof -
  have j: "job item = jid" using assms by (auto simp: schedInv_def bInv_def)
  show ?thesis
    by (rule inv_settled[OF assms]) (simp_all add: onRejected_fields j)
qed

lemma inv_finallyDelete:
  assumes "schedInv n s" "bodies s jid = Some (Settling, item)"
  shows "schedInv n (finallyDelete item (s\<lparr>bodies := (bodies s)(jid := None)\<rparr>))"
proof -
  let ?s' = "finallyDelete item (s\<lparr>bodies := (bodies s)(jid := None)\<rparr>)"
  have j: "job item = jid" using assms by (auto simp: schedInv_def bInv_def)
  from assms(1) have qi: "qInv s" and ri: "rInv n s" and bi: "bInv s" by (simp_all add: schedInv_def)
  have r: "running ?s' = AList.delete jid (running s)" "queue ?s' = queue s"
    "maxParallel ?s' = maxParallel s" "bodies ?s' = (bodies s)(jid := None)"
    "heap ?s' = heap s" "promises ?s' = promises s" "statusOf ?s' = statusOf s"
    by (simp_all add: finallyDelete_def j statusOf_def)
  have mem: "\<And>a b. (a, b) \<in> set (AList.delete jid (running s)) \<Longrightarrow> (a, b) \<in> set (running s) \<and> a \<noteq> jid"
    by (auto simp: AList.delete_eq)
  have len: "length (AList.delete jid (running s)) \<le> length (running s)"
    by (rule length_delete_le)
  have "qInv ?s'"
    using qi unfolding qInv_def r by auto
  moreover have "rInv n ?s'"
    using ri len unfolding rInv_def r by (auto simp: distinct_delete dest!: mem)
  moreover have "bInv ?s'"
    using bi unfolding bInv_def r by (auto split: if_splits)
  ultimately show ?thesis by (simp add: schedInv_def)
qed

lemma inv_exec:
  assumes "schedInv n s" "exec x s = Some s'"
  shows "schedInv n s'"
proof (cases x)
  case (Enqueue jid a t c now)
  with assms show ?thesis
    by (auto simp: enqueue_def split: if_splits intro!: inv_drain inv_enqueuePush)
next
  case Pause
  with assms show ?thesis by (auto intro: inv_pause)
next
  case Resume
  with assms show ?thesis by (auto simp: resume_def intro!: inv_drain inv_resumeFlag)
next
  case (Cancel jid)
  with assms show ?thesis by (auto intro: inv_cancel)
next
  case CancelAll
  with assms show ?thesis by (auto intro: inv_cancelAll)
next
  case (BodyFulfilled jid res)
  with assms show ?thesis
    by (auto split: option.splits body_phase.splits intro: inv_onFulfilled)
next
  case (BodyRejected jid err)
  with assms show ?thesis
    by (auto split: option.splits body_phase.splits intro: inv_onRejected)
next
  case (BodyFinally jid)
  with assms show ?thesis
    by (auto simp: onFinally_def split: option.splits body_phase.splits intro!: inv_drain inv_finallyDelete)
next
  case (EnqueuePush jid a t c now)
  with assms show ?thesis
    by (auto split: if_splits intro!: inv_enqueuePush)
next
  case ResumeFlag
  with assms show ?thesis by (auto intro: inv_resumeFlag)
next
  case (FinallyDelete jid)
  with assms show ?thesis
    by (auto split: option.splits body_phase.splits intro!: inv_finallyDelete)
next
  case DrainIteration
  with assms show ?thesis by (auto split: if_splits intro: inv_drainIteration)
qed

lemma inv_execs: "schedInv n s \<Longrightarrow> execs xs s = Some s' \<Longrightarrow> schedInv n s'"
  by (induction xs arbitrary: s) (auto split: option.splits dest: inv_exec)

lemma inv_new: "schedInv n (new_Scheduler n)"
  by (simp add: schedInv_def qInv_def rInv_def bInv_def new_Scheduler_def)

lemma inv_reachable: "execs xs (new_Scheduler n) = Some s \<Longrightarrow> schedInv n s"
  using inv_execs[OF inv_new] by blast

lemma frame_drainIteration:
  assumes "schedInv n s" "drainCond s" "\<forall>q\<in>set (queue s). job q \<noteq> j"
  shows "frame j s (drainIteration s)"
proof -
  from assms(2) obtain q qs where q: "queue s = q # qs"
    by (auto simp: drainCond_def neq_Nil_conv)
  have nk: "job q \<notin> fst ` set (running s)"
    using inv_disjoint[OF assms(1), of q] q by simp
  note u = drainIteration_unfold[OF q nk]
  have nj: "j \<noteq> job q" using assms(3) q by auto
  show ?thesis using assms(3) nj by (auto simp: frame_def u q)
qed

lemma frame_drainLoop:
  "schedInv n s \<Longrightarrow> \<forall>q\<in>set (queue s). job q \<noteq> j \<Longrightarrow> frame j s (drainLoop s)"
proof (induction s rule: drainLoop.induct)
  case (1 s)
  show ?case
  proof (cases "drainCond s")
    case True
    from frame_drainIteration[OF "1.prems"(1) True "1.prems"(2)]
    have f1: "frame j s (drainIteration s)" .
    then have nq: "\<forall>q\<in>set (queue (drainIteration s)). job q \<noteq> j" by (simp add: frame_def)
    from "1.IH"[OF True inv_drainIteration[OF "1.prems"(1) True] nq]
    have "frame j (drainIteration s) (drainLoop (drainIteration s))" .
    with f1 have "frame j s (drainLoop (drainIteration s))" by (auto simp: frame_def)
    then show ?thesis using True by (simp add: drainLoop.simps[of s])
  next
    case False
    then show ?thesis using "1.prems" by (simp add: drainLoop.simps[of s] frame_def)
  qed
qed

lemma frame_drain:
  "schedInv n s \<Longrightarrow> \<forall>q\<in>set (queue s). job q \<noteq> j \<Longrightarrow> frame j s (drain s)"
  by (simp add: drain_def frame_drainLoop) (simp add: frame_def)

lemma terminal_not_queued:
  assumes "schedInv n s" "statusOf s j = Some st" "terminal st"
  shows "\<forall>q\<in>set (queue s). job q \<noteq> j"
  using assms by (auto simp: schedInv_def qInv_def terminal_def)

lemma cancel_status:
  "statusOf (snd (cancel jid s)) k = statusOf s k \<or>
   statusOf (snd (cancel jid s)) k = map_option (\<lambda>_. Cancelled) (statusOf s k)"
  by (auto simp: cancel_def Let_def split: option.splits)

lemma cancelAll_status:
  "statusOf (cancelAll s) k =
     (if k \<in> job ` set (queue s) \<or> k \<in> (\<lambda>x. job (snd x)) ` set (running s)
      then map_option (\<lambda>_. Cancelled) (statusOf s k) else statusOf s k)"
  by (simp add: cancelAll_alt fold_cancelItem_status option.map_comp comp_def)

lemma terminal_step:
  assumes inv: "schedInv n s" and ex: "exec x s = Some s'"
    and st: "statusOf s j = Some st" "terminal st"
  shows "\<exists>st'. statusOf s' j = Some st' \<and> terminal st'"
proof -
  note nq = terminal_not_queued[OF inv st]
  have jd: "j \<in> dom (heap s)" using st(1) by (auto simp: statusOf_def)
  have keep: "statusOf s' j = Some st \<Longrightarrow> ?thesis" using st(2) by simp
  have viaDrain: "statusOf (drain t) j = Some st"
    if "schedInv n t" "\<forall>q\<in>set (queue t). job q \<noteq> j" "statusOf t j = Some st" for t
    using frame_drain[OF that(1,2)] that(3) by (simp add: frame_def statusOf_def)
  show ?thesis
  proof (cases x)
    case (Enqueue jid a t c now)
    with ex have fresh: "jid \<notin> dom (heap s)" and s': "s' = drain (enqueuePush jid a t c now s)"
      by (auto simp: enqueue_def split: if_splits)
    have ne: "j \<noteq> jid" using fresh jd by auto
    have "statusOf (enqueuePush jid a t c now s) j = Some st"
      using ne st(1) by (simp add: enqueuePush_unfold)
    moreover have "\<forall>q\<in>set (queue (enqueuePush jid a t c now s)). job q \<noteq> j"
      using nq ne by (auto simp: enqueuePush_unfold)
    ultimately show ?thesis using viaDrain[OF inv_enqueuePush[OF inv fresh]] keep s' by simp
  next
    case Pause
    with ex st show ?thesis by (auto simp: pause_def)
  next
    case Resume
    with ex have s': "s' = drain (resumeFlag s)" by (simp add: resume_def)
    show ?thesis using viaDrain[OF inv_resumeFlag[OF inv]] nq st(1) keep s'
      by (simp add: resumeFlag_def)
  next
    case (Cancel jid)
    with ex have s': "s' = snd (cancel jid s)" by simp
    show ?thesis using cancel_status[of jid s j] st unfolding s' by (auto simp: terminal_def)
  next
    case CancelAll
    with ex have s': "s' = cancelAll s" by simp
    show ?thesis using st unfolding s' cancelAll_status by (auto simp: terminal_def)
  next
    case (BodyFulfilled jid res)
    with ex st show ?thesis
      by (auto simp: onFulfilled_fields terminal_def split: option.splits body_phase.splits)
  next
    case (BodyRejected jid err)
    with ex st show ?thesis
      by (auto simp: onRejected_fields terminal_def split: option.splits body_phase.splits)
  next
    case (BodyFinally jid)
    with ex obtain item where b: "bodies s jid = Some (Settling, item)"
      and s': "s' = drain (finallyDelete item (s\<lparr>bodies := (bodies s)(jid := None)\<rparr>))"
      by (auto simp: onFinally_def split: option.splits body_phase.splits)
    show ?thesis using viaDrain[OF inv_finallyDelete[OF inv b]] nq st(1) keep s'
      by (simp add: finallyDelete_def statusOf_def)
  next
    case (EnqueuePush jid a t c now)
    with ex have fresh: "jid \<notin> dom (heap s)" and s': "s' = enqueuePush jid a t c now s"
      by (auto split: if_splits)
    have ne: "j \<noteq> jid" using fresh jd by auto
    show ?thesis using ne st keep s' by (simp add: enqueuePush_unfold)
  next
    case ResumeFlag
    with ex st show ?thesis by (auto simp: resumeFlag_def)
  next
    case (FinallyDelete jid)
    with ex st show ?thesis
      by (auto simp: finallyDelete_def statusOf_def split: option.splits body_phase.splits)
  next
    case DrainIteration
    with ex have c: "drainCond s" and s': "s' = drainIteration s" by (auto split: if_splits)
    from frame_drainIteration[OF inv c nq] st(1) keep s' show ?thesis
      by (simp add: frame_def statusOf_def)
  qed
qed

lemma retired_frame: "retired j s \<Longrightarrow> frame j s s' \<Longrightarrow> retired j s' \<and> heap s' j = heap s j"
  by (auto simp: retired_def frame_def)

lemma cancelAll_heap_other:
  assumes "\<forall>q\<in>set (queue s). job q \<noteq> j" "\<forall>x\<in>set (running s). job (snd x) \<noteq> j"
  shows "heap (cancelAll s) j = heap s j" "promises (cancelAll s) j = promises s j"
proof -
  have 1: "j \<notin> (\<lambda>x. job x) ` set (queue s)" using assms(1) by auto
  have 2: "j \<notin> (\<lambda>x. job (snd x)) ` set (running s)" using assms(2) by auto
  show "heap (cancelAll s) j = heap s j"
    using fold_cancelItem_heap_other[of j snd "running s" fst, OF 2]
      fold_cancelItem_heap_other[of j "\<lambda>x. x" "queue s" job, OF 1]
    by (simp add: cancelAll_alt)
  show "promises (cancelAll s) j = promises s j"
    using fold_cancelItem_promise_other[of j snd "running s" fst, OF 2]
      fold_cancelItem_promise_other[of j "\<lambda>x. x" "queue s" job, OF 1]
    by (simp add: cancelAll_alt)
qed

lemma retired_step:
  assumes inv: "schedInv n s" and ex: "exec x s = Some s'" and r: "retired j s"
  shows "retired j s' \<and> heap s' j = heap s j"
proof -
  from r have jd: "j \<in> dom (heap s)" and nq: "\<forall>q\<in>set (queue s). job q \<noteq> j"
    and nr: "j \<notin> fst ` set (running s)" and nb: "bodies s j = None"
    by (simp_all add: retired_def)
  from inv have ri: "rInv n s" and bi: "bInv s" by (simp_all add: schedInv_def)
  have nr': "\<forall>x\<in>set (running s). job (snd x) \<noteq> j"
    using ri nr by (force simp: rInv_def)
  have viaDrain: "retired j (drain t) \<and> heap (drain t) j = heap s j"
    if "schedInv n t" "retired j t" "heap t j = heap s j" for t
    using retired_frame[OF that(2) frame_drain[OF that(1)]] that(2,3) by (simp add: retired_def)
  show ?thesis
  proof (cases x)
    case (Enqueue jid a t c now)
    with ex have fresh: "jid \<notin> dom (heap s)" and s': "s' = drain (enqueuePush jid a t c now s)"
      by (auto simp: enqueue_def split: if_splits)
    have ne: "j \<noteq> jid" using fresh jd by auto
    have "retired j (enqueuePush jid a t c now s)"
      using r ne by (auto simp: retired_def enqueuePush_unfold)
    moreover have "heap (enqueuePush jid a t c now s) j = heap s j"
      using ne by (simp add: enqueuePush_unfold)
    ultimately show ?thesis using viaDrain[OF inv_enqueuePush[OF inv fresh]] s' by simp
  next
    case Pause
    with ex r show ?thesis by (auto simp: pause_def retired_def)
  next
    case Resume
    with ex have s': "s' = drain (resumeFlag s)" by (simp add: resume_def)
    have "retired j (resumeFlag s)" using r by (simp add: retired_def resumeFlag_def)
    then show ?thesis using viaDrain[OF inv_resumeFlag[OF inv]] s' by (simp add: resumeFlag_def)
  next
    case (Cancel jid)
    with ex have s': "s' = snd (cancel jid s)" by simp
    show ?thesis
    proof (cases "findIndex (\<lambda>q. job q = jid) (queue s)")
      case (Some idx)
      let ?item = "queue s ! idx"
      let ?q' = "take idx (queue s) @ drop (Suc idx) (queue s)"
      from findIndex_Some[OF Some] have "?item \<in> set (queue s)" by simp
      with nq have ne: "j \<noteq> job ?item" by auto
      have c: "s' = cancelItem jid ?item (s\<lparr>queue := ?q'\<rparr>)"
        by (simp add: s' cancel_def Some Let_def)
      have "\<forall>q\<in>set ?q'. job q \<noteq> j" using nq remove_nth_set[of idx "queue s"] by blast
      then show ?thesis using r ne unfolding c by (simp add: retired_def)
    next
      case None
      show ?thesis
      proof (cases "map_of (running s) jid")
        case n2: None
        then show ?thesis using r None by (simp add: s' cancel_def)
      next
        case (Some item)
        then have "(jid, item) \<in> set (running s)" by (rule map_of_SomeD)
        with nr' have ne: "j \<noteq> job item" by auto
        show ?thesis using r ne by (simp add: s' cancel_def None Some Let_def retired_def)
      qed
    qed
  next
    case CancelAll
    with ex have s': "s' = cancelAll s" by simp
    show ?thesis using r cancelAll_heap_other(1)[OF nq nr'] unfolding s'
      by (auto simp: retired_def cancelAll_fields)
  next
    case (BodyFulfilled jid res)
    with ex obtain item where b: "bodies s jid = Some (Executing, item)"
      and s': "s' = onFulfilled item res (s\<lparr>bodies := (bodies s)(jid \<mapsto> (Settling, item))\<rparr>)"
      by (auto split: option.splits body_phase.splits)
    have ne: "j \<noteq> jid" using b nb by auto
    have j: "job item = jid" using bi b by (auto simp: bInv_def)
    show ?thesis using r ne unfolding s' by (simp add: retired_def onFulfilled_fields j)
  next
    case (BodyRejected jid err)
    with ex obtain item where b: "bodies s jid = Some (Executing, item)"
      and s': "s' = onRejected item err (s\<lparr>bodies := (bodies s)(jid \<mapsto> (Settling, item))\<rparr>)"
      by (auto split: option.splits body_phase.splits)
    have ne: "j \<noteq> jid" using b nb by auto
    have j: "job item = jid" using bi b by (auto simp: bInv_def)
    show ?thesis using r ne unfolding s' by (simp add: retired_def onRejected_fields j)
  next
    case (BodyFinally jid)
    with ex obtain item where b: "bodies s jid = Some (Settling, item)"
      and s': "s' = drain (finallyDelete item (s\<lparr>bodies := (bodies s)(jid := None)\<rparr>))"
      by (auto simp: onFinally_def split: option.splits body_phase.splits)
    let ?t = "finallyDelete item (s\<lparr>bodies := (bodies s)(jid := None)\<rparr>)"
    have "fst ` set (AList.delete (job item) (running s)) \<subseteq> fst ` set (running s)"
      by (rule dom_delete_subset)
    then have "retired j ?t" using r by (auto simp: retired_def finallyDelete_def)
    moreover have "heap ?t j = heap s j" by (simp add: finallyDelete_def)
    ultimately show ?thesis using viaDrain[OF inv_finallyDelete[OF inv b]] s' by simp
  next
    case (EnqueuePush jid a t c now)
    with ex have fresh: "jid \<notin> dom (heap s)" and s': "s' = enqueuePush jid a t c now s"
      by (auto split: if_splits)
    have ne: "j \<noteq> jid" using fresh jd by auto
    show ?thesis using r ne unfolding s' by (auto simp: retired_def enqueuePush_unfold)
  next
    case ResumeFlag
    with ex r show ?thesis by (auto simp: resumeFlag_def retired_def)
  next
    case (FinallyDelete jid)
    with ex obtain item where b: "bodies s jid = Some (Settling, item)"
      and s': "s' = finallyDelete item (s\<lparr>bodies := (bodies s)(jid := None)\<rparr>)"
      by (auto split: option.splits body_phase.splits)
    have "fst ` set (AList.delete (job item) (running s)) \<subseteq> fst ` set (running s)"
      by (rule dom_delete_subset)
    then show ?thesis using r unfolding s' by (auto simp: retired_def finallyDelete_def)
  next
    case DrainIteration
    with ex have c: "drainCond s" and s': "s' = drainIteration s" by (auto split: if_splits)
    from retired_frame[OF r frame_drainIteration[OF inv c nq]] s' show ?thesis by simp
  qed
qed

lemma terminal_execs:
  "schedInv n s \<Longrightarrow> execs xs s = Some s' \<Longrightarrow> statusOf s j = Some st \<Longrightarrow> terminal st \<Longrightarrow>
   \<exists>st'. statusOf s' j = Some st' \<and> terminal st'"
proof (induction xs arbitrary: s st)
  case Nil
  then show ?case by simp
next
  case (Cons x xs)
  from Cons.prems(2) obtain s1 where 1: "exec x s = Some s1" and 2: "execs xs s1 = Some s'"
    by (auto split: option.splits)
  from terminal_step[OF Cons.prems(1) 1 Cons.prems(3,4)]
  obtain st1 where "statusOf s1 j = Some st1" "terminal st1" by blast
  from Cons.IH[OF inv_exec[OF Cons.prems(1) 1] 2 this] show ?case .
qed

lemma retired_execs:
  "schedInv n s \<Longrightarrow> execs xs s = Some s' \<Longrightarrow> retired j s \<Longrightarrow> retired j s' \<and> heap s' j = heap s j"
proof (induction xs arbitrary: s)
  case Nil
  then show ?case by simp
next
  case (Cons x xs)
  from Cons.prems(2) obtain s1 where 1: "exec x s = Some s1" and 2: "execs xs s1 = Some s'"
    by (auto split: option.splits)
  from retired_step[OF Cons.prems(1) 1 Cons.prems(3)]
  have "retired j s1" "heap s1 j = heap s j" by simp_all
  with Cons.IH[OF inv_exec[OF Cons.prems(1) 1] 2] show ?case by simp
qed

lemmas sched_eval =
  enqueue_def enqueuePush_def drain_def drainLoop.simps drainCond_def drainIteration_def
  startJob_def setStatus_def updJob_def emit_def settle_def new_Scheduler_def Let_def
  cancel_def cancelItem_def cancelAll_def onFulfilled_def onRejected_def onFinally_def
  finallyDelete_def pause_def resume_def resumeFlag_def
  activeJobs_def pendingJobs_def activeCount_def statusOf_def cancelMessage_def

text \<open>
  Claim C1. For every concurrency bound \<open>n\<close> (so for every \<open>n \<ge> 1\<close>) and every series of
  enqueue, pause, resume, cancel and cancelAll calls and of job completions, also cut
  at the instants inside \<^verbatim>\<open>enqueue\<close>, \<^verbatim>\<open>resume\<close>, the \<^verbatim>\<open>finally\<close> callback and the loop of
  \<^verbatim>\<open>drain\<close>, the running set holds at most \<open>n\<close> jobs and no job is both in the
  pending queue and in the running set.
\<close>

theorem running_set_bounded_and_disjoint:
  assumes "execs ops (new_Scheduler n) = Some s"
  shows "activeCount s \<le> n \<and> set (pendingJobs s) \<inter> set (activeJobs s) = {}"
proof -
  from inv_reachable[OF assms] have inv: "schedInv n s" .
  then have ri: "rInv n s" by (simp add: schedInv_def)
  have "activeCount s \<le> n" using ri by (simp add: rInv_def activeCount_def)
  moreover have "set (activeJobs s) \<subseteq> fst ` set (running s)"
    using ri by (force simp: rInv_def activeJobs_def)
  then have "set (pendingJobs s) \<inter> set (activeJobs s) = {}"
    using inv_disjoint[OF inv] by (auto simp: pendingJobs_def)
  ultimately show ?thesis by simp
qed

theorem running_set_bounded_and_disjoint_witness:
  "\<exists>s. execs [Enqueue ''j1'' ''a'' ''t'' None ''d1'', Enqueue ''j2'' ''b'' ''t'' None ''d2'',
              Enqueue ''j3'' ''c'' ''t'' None ''d3'', BodyFulfilled ''j1'' ''r'', BodyFinally ''j1'',
              Enqueue ''j4'' ''d'' ''t'' None ''d4'']
         (new_Scheduler 2) = Some s
      \<and> activeJobs s = [''j2'', ''j3''] \<and> pendingJobs s = [''j4'']
      \<and> activeCount s \<le> 2 \<and> set (pendingJobs s) \<inter> set (activeJobs s) = {}"
proof -
  let ?ops = "[Enqueue ''j1'' ''a'' ''t'' None ''d1'', Enqueue ''j2'' ''b'' ''t'' None ''d2'',
              Enqueue ''j3'' ''c'' ''t'' None ''d3'', BodyFulfilled ''j1'' ''r'', BodyFinally ''j1'',
              Enqueue ''j4'' ''d'' ''t'' None ''d4'']"
  have "\<exists>s. execs ?ops (new_Scheduler 2) = Some s
      \<and> activeJobs s = [''j2'', ''j3''] \<and> pendingJobs s = [''j4'']"
    by (simp add: sched_eval)
  then obtain s where e: "execs ?ops (new_Scheduler 2) = Some s"
    and a: "activeJobs s = [''j2'', ''j3'']" and p: "pendingJobs s = [''j4'']" by blast
  from running_set_bounded_and_disjoint[OF e] e a p show ?thesis by blast
qed

text \<open>
  Claim C10. For a job id that is neither in the pending queue nor a key of the running
  set, \<^verbatim>\<open>cancel(jobId)\<close> returns false and the whole state is as before: no status, no
  promise and no emitted event has changed.
\<close>

theorem cancel_unknown_job_is_noop:
  assumes "jid \<notin> set (pendingJobs s)" "jid \<notin> fst ` set (running s)"
  shows "cancel jid s = (False, s)"
proof -
  have "findIndex (\<lambda>q. job q = jid) (queue s) = None"
    using assms(1) by (auto simp: findIndex_None pendingJobs_def)
  moreover have "map_of (running s) jid = None"
    using assms(2) by (simp add: map_of_eq_None_iff)
  ultimately show ?thesis by (simp add: cancel_def)
qed

theorem cancel_unknown_job_is_noop_witness:
  "''nonexistent'' \<notin> set (pendingJobs (new_Scheduler 5))
   \<and> ''nonexistent'' \<notin> fst ` set (running (new_Scheduler 5))
   \<and> cancel ''nonexistent'' (new_Scheduler 5) = (False, new_Scheduler 5)"
proof -
  have 1: "''nonexistent'' \<notin> set (pendingJobs (new_Scheduler 5))"
    by (simp add: pendingJobs_def new_Scheduler_def)
  have 2: "''nonexistent'' \<notin> fst ` set (running (new_Scheduler 5))"
    by (simp add: new_Scheduler_def)
  from cancel_unknown_job_is_noop[OF 1 2] 1 2 show ?thesis by blast
qed

text \<open>
  Claim C3, as amended. In every reachable state and for everything that can happen
  afterwards: a job whose status is terminal (completed, cancelled or failed) has a
  terminal status ever after, though not always the same one; and the \<^verbatim>\<open>Job\<close> object of a
  job that is in neither collection and has no body in flight (cancelled while pending,
  or past its \<^verbatim>\<open>finally\<close> callback) never changes again, so its status is final.
\<close>

theorem terminal_status_stays_terminal:
  assumes "execs ops (new_Scheduler n) = Some s" "execs ops' s = Some s'"
  shows "(\<forall>st. statusOf s j = Some st \<and> terminal st \<longrightarrow>
            (\<exists>st'. statusOf s' j = Some st' \<and> terminal st'))
       \<and> (j \<in> dom (heap s) \<and> j \<notin> set (pendingJobs s) \<and> j \<notin> fst ` set (running s) \<and>
            bodies s j = None \<longrightarrow> heap s' j = heap s j)"
proof -
  from inv_reachable[OF assms(1)] have inv: "schedInv n s" .
  have "\<exists>st'. statusOf s' j = Some st' \<and> terminal st'"
    if "statusOf s j = Some st" "terminal st" for st
    using terminal_execs[OF inv assms(2) that] .
  moreover have "heap s' j = heap s j"
    if "j \<in> dom (heap s) \<and> j \<notin> set (pendingJobs s) \<and> j \<notin> fst ` set (running s) \<and>
            bodies s j = None"
  proof -
    from that have "retired j s" by (auto simp: retired_def pendingJobs_def)
    from retired_execs[OF inv assms(2) this] show ?thesis by simp
  qed
  ultimately show ?thesis by blast
qed

theorem terminal_status_stays_terminal_witness:
  "\<exists>s s'. execs [Enqueue ''j1'' ''a'' ''t'' None ''d1'', Enqueue ''j2'' ''b'' ''t'' None ''d2'',
                 Cancel ''j2''] (new_Scheduler 1) = Some s
      \<and> execs [BodyFulfilled ''j1'' ''r'', BodyFinally ''j1''] s = Some s'
      \<and> statusOf s ''j2'' = Some Cancelled \<and> terminal Cancelled
      \<and> ''j2'' \<in> dom (heap s) \<and> ''j2'' \<notin> set (pendingJobs s) \<and> ''j2'' \<notin> fst ` set (running s)
      \<and> bodies s ''j2'' = None
      \<and> (\<exists>st'. statusOf s' ''j2'' = Some st' \<and> terminal st')
      \<and> heap s' ''j2'' = heap s ''j2''"
proof -
  let ?ops = "[Enqueue ''j1'' ''a'' ''t'' None ''d1'', Enqueue ''j2'' ''b'' ''t'' None ''d2'',
                 Cancel ''j2'']"
  let ?ops' = "[BodyFulfilled ''j1'' ''r'', BodyFinally ''j1'']"
  have "\<exists>s. execs ?ops (new_Scheduler 1) = Some s
      \<and> statusOf s ''j2'' = Some Cancelled
      \<and> ''j2'' \<in> dom (heap s) \<and> ''j2'' \<notin> set (pendingJobs s) \<and> ''j2'' \<notin> fst ` set (running s)
      \<and> bodies s ''j2'' = None \<and> execs ?ops' s \<noteq> None"
    by (simp add: sched_eval)
  then obtain s s' where e: "execs ?ops (new_Scheduler 1) = Some s"
    and f: "statusOf s ''j2'' = Some Cancelled" "''j2'' \<in> dom (heap s)"
      "''j2'' \<notin> set (pendingJobs s)" "''j2'' \<notin> fst ` set (running s)" "bodies s ''j2'' = None"
    and e': "execs ?ops' s = Some s'" by blast
  have t: "terminal Cancelled" by (simp add: terminal_def)
  from terminal_status_stays_terminal[OF e e', of "''j2''"] f t
  have "(\<exists>st'. statusOf s' ''j2'' = Some st' \<and> terminal st')" "heap s' ''j2'' = heap s ''j2''"
    by blast+
  with e e' f t show ?thesis by blast
qed

text \<open>
  Claim C3 as stated fails: a job cancelled while running has status cancelled, and the
  \<^verbatim>\<open>then\<close> callback of \<^verbatim>\<open>startJob\<close> sets it to completed when the body returns.
\<close>

theorem cancelled_status_overwritten_by_completion:
  "(case execs [Enqueue ''j1'' ''a'' ''t'' None ''d1'', Cancel ''j1''] (new_Scheduler 1) of
      None \<Rightarrow> False
    | Some s \<Rightarrow> statusOf s ''j1'' = Some Cancelled \<and>
        (case execs [BodyFulfilled ''j1'' ''r''] s of
           None \<Rightarrow> False
         | Some s' \<Rightarrow> statusOf s' ''j1'' = Some Completed))"
  by (simp add: sched_eval)

lemma cancelAll_promise_pending:
  assumes inv: "schedInv n s" and q: "q \<in> set (queue s)"
  shows "promises (cancelAll s) (job q) = Some (Rejected (cancelMessage (job q)))"
proof -
  let ?s1 = "fold (\<lambda>x. cancelItem (job x) x) (queue s) s"
  from inv q have u: "promises s (job q) = Some Unsettled" by (simp add: schedInv_def qInv_def)
  have m: "job q \<in> (\<lambda>x. job x) ` set (queue s)" using q by blast
  have 1: "promises ?s1 (job q) = Some (Rejected (cancelMessage (job q)))"
    using fold_cancelItem_promise_rejected[of "job q" "\<lambda>x. x" "queue s" s job, OF m u] by simp
  then have "promises (?s1\<lparr>queue := []\<rparr>) (job q) \<noteq> Some Unsettled" by simp
  from fold_cancelItem_promise_settled[of "?s1\<lparr>queue := []\<rparr>" "job q" fst snd "running s", OF this] 1
  show ?thesis by (simp add: cancelAll_alt)
qed

lemma cancelAll_promise_running:
  assumes inv: "schedInv n s" and r: "(j, item) \<in> set (running s)"
    and u: "promises s j = Some Unsettled"
  shows "promises (cancelAll s) j = Some (Rejected (cancelMessage j))"
proof -
  let ?s1 = "fold (\<lambda>x. cancelItem (job x) x) (queue s) s"
  from inv have ri: "rInv n s" by (simp add: schedInv_def)
  have jr: "j \<in> fst ` set (running s)" using r by force
  have nq: "j \<notin> (\<lambda>x. job x) ` set (queue s)"
  proof
    assume "j \<in> (\<lambda>x. job x) ` set (queue s)"
    then obtain q where "q \<in> set (queue s)" "j = job q" by blast
    with inv_disjoint[OF inv, of q] jr show False by simp
  qed
  have 1: "promises (?s1\<lparr>queue := []\<rparr>) j = Some Unsettled"
    using fold_cancelItem_promise_other[of j "\<lambda>x. x" "queue s" job s, OF nq] u by simp
  have m: "j \<in> (\<lambda>x. job (snd x)) ` set (running s)" using r ri by (force simp: rInv_def)
  have k: "\<forall>x\<in>set (running s). job (snd x) = j \<longrightarrow> fst x = j" using ri by (auto simp: rInv_def)
  from fold_cancelItem_promise_rejected[of j snd "running s" "?s1\<lparr>queue := []\<rparr>" fst, OF m 1 k]
  show ?thesis by (simp add: cancelAll_alt)
qed

text \<open>
  Claim C2, as amended. In every reachable state \<^verbatim>\<open>cancelAll()\<close> empties both
  collections and interrupts no body; every pending job gets status cancelled and its
  future is rejected with the cancellation error; every running job gets status
  cancelled, and if its body is still executing, its future, unsettled until then, is
  rejected by \<^verbatim>\<open>cancelAll\<close> itself with the cancellation error: the body's callbacks still
  run when it completes or fails, and leave the future rejected as it is.
\<close>

theorem cancelAll_rejects_pending_and_running:
  assumes "execs ops (new_Scheduler n) = Some s"
  shows "queue (cancelAll s) = [] \<and> running (cancelAll s) = [] \<and> bodies (cancelAll s) = bodies s
    \<and> (\<forall>j\<in>set (pendingJobs s).
          statusOf (cancelAll s) j = Some Cancelled \<and>
          promises (cancelAll s) j = Some (Rejected (cancelMessage j)))
    \<and> (\<forall>j\<in>set (activeJobs s).
          statusOf (cancelAll s) j = Some Cancelled \<and>
          (\<forall>item. bodies s j = Some (Executing, item) \<longrightarrow>
             promises s j = Some Unsettled \<and>
             promises (cancelAll s) j = Some (Rejected (cancelMessage j)) \<and>
             (\<forall>res. \<exists>s'. exec (BodyFulfilled j res) (cancelAll s) = Some s' \<and>
                 promises s' j = Some (Rejected (cancelMessage j))) \<and>
             (\<forall>err. \<exists>s'. exec (BodyRejected j err) (cancelAll s) = Some s' \<and>
                 promises s' j = Some (Rejected (cancelMessage j)))))"
proof -
  from inv_reachable[OF assms] have inv: "schedInv n s" .
  then have qi: "qInv s" and ri: "rInv n s" and bi: "bInv s" by (simp_all add: schedInv_def)
  have P: "statusOf (cancelAll s) j = Some Cancelled \<and>
          promises (cancelAll s) j = Some (Rejected (cancelMessage j))"
    if "j \<in> set (pendingJobs s)" for j
  proof -
    from that obtain q where q: "q \<in> set (queue s)" "j = job q" by (auto simp: pendingJobs_def)
    have "statusOf s j = Some Pending" using qi q by (simp add: qInv_def)
    then have "statusOf (cancelAll s) j = Some Cancelled" using q by (auto simp: cancelAll_status)
    with cancelAll_promise_pending[OF inv q(1)] q(2) show ?thesis by simp
  qed
  have R: "statusOf (cancelAll s) j = Some Cancelled \<and>
          (\<forall>item. bodies s j = Some (Executing, item) \<longrightarrow>
             promises s j = Some Unsettled \<and>
             promises (cancelAll s) j = Some (Rejected (cancelMessage j)) \<and>
             (\<forall>res. \<exists>s'. exec (BodyFulfilled j res) (cancelAll s) = Some s' \<and>
                 promises s' j = Some (Rejected (cancelMessage j))) \<and>
             (\<forall>err. \<exists>s'. exec (BodyRejected j err) (cancelAll s) = Some s' \<and>
                 promises s' j = Some (Rejected (cancelMessage j))))"
    if "j \<in> set (activeJobs s)" for j
  proof -
    from that obtain k it where r0: "(k, it) \<in> set (running s)" "j = job it"
      by (auto simp: activeJobs_def)
    with ri have r: "(j, it) \<in> set (running s)" by (auto simp: rInv_def)
    from ri r have "bodies s j \<noteq> None" by (auto simp: rInv_def)
    with bi have "j \<in> dom (heap s)" by (auto simp: bInv_def)
    then obtain st where "statusOf s j = Some st" by (auto simp: statusOf_def)
    moreover have "j \<in> (\<lambda>x. job (snd x)) ` set (running s)" using r0 by force
    ultimately have st: "statusOf (cancelAll s) j = Some Cancelled" by (simp add: cancelAll_status)
    have E: "promises s j = Some Unsettled \<and>
             promises (cancelAll s) j = Some (Rejected (cancelMessage j)) \<and>
             (\<forall>res. \<exists>s'. exec (BodyFulfilled j res) (cancelAll s) = Some s' \<and>
                 promises s' j = Some (Rejected (cancelMessage j))) \<and>
             (\<forall>err. \<exists>s'. exec (BodyRejected j err) (cancelAll s) = Some s' \<and>
                 promises s' j = Some (Rejected (cancelMessage j)))"
      if b: "bodies s j = Some (Executing, item)" for item
    proof -
      from ri r b have u: "promises s j = Some Unsettled" by (auto simp: rInv_def)
      from cancelAll_promise_running[OF inv r u]
      have p: "promises (cancelAll s) j = Some (Rejected (cancelMessage j))" .
      have b': "bodies (cancelAll s) j = Some (Executing, item)" using b by (simp add: cancelAll_fields)
      show ?thesis using u p b' by (simp add: onFulfilled_fields onRejected_fields)
    qed
    from st E show ?thesis by blast
  qed
  from P R show ?thesis by (simp add: cancelAll_fields)
qed

text \<open>
  Claim C2 as stated fails: with bound 1, the first of two jobs is running and its
  future is unsettled; \<^verbatim>\<open>cancelAll()\<close> rejects it, and the body's later completion does
  not settle it any more.
\<close>

theorem cancelAll_rejects_running_future:
  "(case execs [Enqueue ''j1'' ''a'' ''t'' None ''d1'', Enqueue ''j2'' ''b'' ''t'' None ''d2'']
          (new_Scheduler 1) of
      None \<Rightarrow> False
    | Some s \<Rightarrow>
        activeJobs s = [''j1''] \<and> pendingJobs s = [''j2''] \<and>
        promises s ''j1'' = Some Unsettled \<and>
        promises (cancelAll s) ''j1'' = Some (Rejected ''Job j1 cancelled'') \<and>
        (case exec (BodyFulfilled ''j1'' ''r'') (cancelAll s) of
           None \<Rightarrow> False
         | Some s' \<Rightarrow> promises s' ''j1'' = Some (Rejected ''Job j1 cancelled'')))"
  by (simp add: sched_eval)

theorem cancelAll_rejects_pending_and_running_witness:
  "\<exists>s. execs [Enqueue ''j1'' ''a'' ''t'' None ''d1'', Enqueue ''j2'' ''b'' ''t'' None ''d2'']
          (new_Scheduler 1) = Some s
     \<and> ''j2'' \<in> set (pendingJobs s) \<and> ''j1'' \<in> set (activeJobs s)
     \<and> bodies s ''j1'' = Some (Executing, \<lparr>job = ''j1'', correlationId = None\<rparr>)
     \<and> statusOf (cancelAll s) ''j2'' = Some Cancelled
     \<and> promises (cancelAll s) ''j2'' = Some (Rejected (cancelMessage ''j2''))
     \<and> statusOf (cancelAll s) ''j1'' = Some Cancelled
     \<and> promises (cancelAll s) ''j1'' = Some (Rejected (cancelMessage ''j1''))"
proof -
  let ?ops = "[Enqueue ''j1'' ''a'' ''t'' None ''d1'', Enqueue ''j2'' ''b'' ''t'' None ''d2'']"
  have "\<exists>s. execs ?ops (new_Scheduler 1) = Some s
     \<and> ''j2'' \<in> set (pendingJobs s) \<and> ''j1'' \<in> set (activeJobs s)
     \<and> bodies s ''j1'' = Some (Executing, \<lparr>job = ''j1'', correlationId = None\<rparr>)"
    by (simp add: sched_eval)
  then obtain s where e: "execs ?ops (new_Scheduler 1) = Some s"
    and f: "''j2'' \<in> set (pendingJobs s)" "''j1'' \<in> set (activeJobs s)"
      "bodies s ''j1'' = Some (Executing, \<lparr>job = ''j1'', correlationId = None\<rparr>)" by blast
  from cancelAll_rejects_pending_and_running[OF e] f
  have "statusOf (cancelAll s) ''j2'' = Some Cancelled"
    "promises (cancelAll s) ''j2'' = Some (Rejected (cancelMessage ''j2''))"
    "statusOf (cancelAll s) ''j1'' = Some Cancelled"
    "promises (cancelAll s) ''j1'' = Some (Rejected (cancelMessage ''j1''))"
    by blast+
  with e f show ?thesis by blast
qed

section \<open>Runtime context: results\<close>

lemma usageNotDecreased_refl: "usageNotDecreased pe pe"
  by (simp add: usageNotDecreased_def)

lemma usage_addTokenUsage: "0 \<le> t \<Longrightarrow> usageNotDecreased pe (addTokenUsage u t pe)"
  by (auto simp: usageNotDecreased_def addTokenUsage_def split: option.splits)

lemma usage_addCostUsage: "0 \<le> c \<Longrightarrow> usageNotDecreased pe (addCostUsage u c pe)"
  by (auto simp: usageNotDecreased_def addCostUsage_def split: option.splits)

lemma usage_on_llm_response:
  "(\<forall>n. totalTokens = Some n \<longrightarrow> 0 \<le> n) \<Longrightarrow>
   usageNotDecreased pe (on_llm_response cid totalTokens pe)"
  by (auto simp: on_llm_response_def usageNotDecreased_refl usage_addTokenUsage
      split: option.splits)

text \<open>
  Claim C7, as amended. The counters \<^verbatim>\<open>tokensUsed\<close> and \<^verbatim>\<open>costUsed\<close> of every unit never
  decrease under \<^verbatim>\<open>addTokenUsage\<close> and \<^verbatim>\<open>addCostUsage\<close> with non-negative amounts, under
  the \<^verbatim>\<open>llm:response\<close> listener with a non-negative token count, nor under
  \<^verbatim>\<open>checkBudget\<close>. \<^verbatim>\<open>registerAgent\<close> sets both counters of its unit to zero and \<^verbatim>\<open>clear()\<close>
  drops every record. \<^verbatim>\<open>spawnAgent\<close> always registers the budget and the message policy
  of the definition, so the spawned unit's counters are zero afterwards whatever they
  were; only the registry is left alone when the name is already known.
\<close>

theorem budget_counters_reset_by_registration:
  "(0 \<le> t \<longrightarrow> usageNotDecreased pe (addTokenUsage u t pe))
   \<and> (0 \<le> c \<longrightarrow> usageNotDecreased pe (addCostUsage u c pe))
   \<and> ((\<forall>n. totalTokens = Some n \<longrightarrow> 0 \<le> n) \<longrightarrow>
        usageNotDecreased pe (on_llm_response cid totalTokens pe))
   \<and> usageNotDecreased pe (snd (checkBudget u pe))
   \<and> getUsage u (registerAgent u p pe) = Some (0, 0)
   \<and> getUsage u (PolicyEnforcer_clear pe) = None
   \<and> getUsage (name d) (policyEnforcer (spawnAgent parent corr d tsk jid now sv)) = Some (0, 0)
   \<and> policies (messageRouter (spawnAgent parent corr d tsk jid now sv)) (name d) = Some (policy d)
   \<and> (hasAgent (name d) (registry sv) \<longrightarrow>
        registry (spawnAgent parent corr d tsk jid now sv) = registry sv)"
proof -
  have "usageNotDecreased pe (snd (checkBudget u pe))"
    by (auto simp: checkBudget_def Let_def usageNotDecreased_refl split: option.splits)
  moreover have "getUsage u (registerAgent u p pe) = Some (0, 0)"
    by (simp add: getUsage_def registerAgent_def)
  moreover have "getUsage u (PolicyEnforcer_clear pe) = None"
    by (simp add: getUsage_def PolicyEnforcer_clear_def)
  moreover have "getUsage (name d) (policyEnforcer (spawnAgent parent corr d tsk jid now sv)) = Some (0, 0)"
    by (simp add: spawnAgent_def Let_def getUsage_def registerAgent_def)
  moreover have "policies (messageRouter (spawnAgent parent corr d tsk jid now sv)) (name d) = Some (policy d)"
    by (simp add: spawnAgent_def Let_def setPolicy_def)
  moreover have "hasAgent (name d) (registry sv) \<longrightarrow>
        registry (spawnAgent parent corr d tsk jid now sv) = registry sv"
    by (simp add: spawnAgent_def Let_def)
  ultimately show ?thesis
    using usage_addTokenUsage usage_addCostUsage usage_on_llm_response by blast
qed

text \<open>
  Claim C7 as stated fails: unit A is known and has used 50 tokens; spawning a definition
  named A again leaves it with 0 tokens used.
\<close>

theorem spawn_known_unit_resets_usage:
  "hasAgent ''A''
     (registry \<lparr>registry = \<lparr>agents = [(''A'', \<lparr>name = ''A'', prompt = ''p'', tools = [],
                    policy = emptyPolicy\<lparr>maxTokens := Some 100\<rparr>, mcpServers = [], executor = None\<rparr>)],
                  toolNames = [], mcps = []\<rparr>,
        policyEnforcer = addTokenUsage ''A'' 50
           (registerAgent ''A'' (emptyPolicy\<lparr>maxTokens := Some 100\<rparr>) new_PolicyEnforcer),
        messageRouter = new_MessageRouter, scheduler = new_Scheduler 5,
        claimGraph = new_ClaimGraph, busEvents = []\<rparr>)
   \<and> getUsage ''A''
       (policyEnforcer \<lparr>registry = \<lparr>agents = [(''A'', \<lparr>name = ''A'', prompt = ''p'', tools = [],
                    policy = emptyPolicy\<lparr>maxTokens := Some 100\<rparr>, mcpServers = [], executor = None\<rparr>)],
                  toolNames = [], mcps = []\<rparr>,
        policyEnforcer = addTokenUsage ''A'' 50
           (registerAgent ''A'' (emptyPolicy\<lparr>maxTokens := Some 100\<rparr>) new_PolicyEnforcer),
        messageRouter = new_MessageRouter, scheduler = new_Scheduler 5,
        claimGraph = new_ClaimGraph, busEvents = []\<rparr>) = Some (50, 0)
   \<and> getUsage ''A''
       (policyEnforcer (spawnAgent ''Parent'' ''run1''
          \<lparr>name = ''A'', prompt = ''p'', tools = [],
            policy = emptyPolicy\<lparr>maxTokens := Some 100\<rparr>, mcpServers = [], executor = None\<rparr>
          ''task'' ''j1'' ''now''
          \<lparr>registry = \<lparr>agents = [(''A'', \<lparr>name = ''A'', prompt = ''p'', tools = [],
                    policy = emptyPolicy\<lparr>maxTokens := Some 100\<rparr>, mcpServers = [], executor = None\<rparr>)],
                  toolNames = [], mcps = []\<rparr>,
        policyEnforcer = addTokenUsage ''A'' 50
           (registerAgent ''A'' (emptyPolicy\<lparr>maxTokens := Some 100\<rparr>) new_PolicyEnforcer),
        messageRouter = new_MessageRouter, scheduler = new_Scheduler 5,
        claimGraph = new_ClaimGraph, busEvents = []\<rparr>)) = Some (0, 0)"
  by (simp add: hasAgent_def spawnAgent_def Let_def getUsage_def registerAgent_def
      addTokenUsage_def new_PolicyEnforcer_def)

theorem budget_counters_reset_by_registration_witness:
  "(0::int) \<le> 30
   \<and> usageNotDecreased
        (addTokenUsage ''A'' 50 (registerAgent ''A'' emptyPolicy new_PolicyEnforcer))
        (addTokenUsage ''A'' 30
          (addTokenUsage ''A'' 50 (registerAgent ''A'' emptyPolicy new_PolicyEnforcer)))
   \<and> getUsage ''A'' (addTokenUsage ''A'' 30
          (addTokenUsage ''A'' 50 (registerAgent ''A'' emptyPolicy new_PolicyEnforcer))) = Some (80, 0)
   \<and> getUsage ''A'' (registerAgent ''A'' emptyPolicy (addTokenUsage ''A'' 30
          (addTokenUsage ''A'' 50 (registerAgent ''A'' emptyPolicy new_PolicyEnforcer)))) = Some (0, 0)"
proof -
  let ?pe = "addTokenUsage ''A'' 50 (registerAgent ''A'' emptyPolicy new_PolicyEnforcer)"
  have h: "(0::int) \<le> 30" by simp
  from budget_counters_reset_by_registration[of 30 ?pe "''A''"] h
  have 1: "usageNotDecreased ?pe (addTokenUsage ''A'' 30 ?pe)" by blast
  from budget_counters_reset_by_registration[of _ "addTokenUsage ''A'' 30 ?pe" "''A''" _ _ _ emptyPolicy]
  have 2: "getUsage ''A'' (registerAgent ''A'' emptyPolicy (addTokenUsage ''A'' 30 ?pe)) = Some (0, 0)"
    by blast
  have 3: "getUsage ''A'' (addTokenUsage ''A'' 30 ?pe) = Some (80, 0)"
    by (simp add: getUsage_def addTokenUsage_def registerAgent_def new_PolicyEnforcer_def)
  from h 1 2 3 show ?thesis by blast
qed

section \<open>Execution pipeline: results\<close>



lemma services_simps [simp]:
  "services (called x c) = services c"
  "claimGraph (services (busEmit ev c)) = claimGraph (services c)"
  "scheduler (services (busEmit ev c)) = scheduler (services c)"
  "claimGraph (services (cleanup c)) = claimGraph (services c)"
  "scheduler (services (cleanup c)) = scheduler (services c)"
  by (auto simp: called_def busEmit_def cleanup_def Let_def)






end
